theory Spec2Isabelle
  imports Complex_Main "HOL-Library.Log_Nat"
begin

text \<open>
  The dependency-graph functions of supersetbot as HOL functions, and what their
  specification says of them: the parser of pinned requirements
  (\<open>parsePinnedRequirementsTree\<close>), the merger of parsed graphs
  (\<open>mergeParsedRequirementsTree\<close>), the closure walker (\<open>allDescendantPackages\<close>), the
  extractor of version changes from a diff (\<open>processPythonReqsDiffOutput\<close>) and the
  comparator of versions (\<open>compareSemVer\<close>).
\<close>

section \<open>JavaScript strings\<close>

text \<open>
  A JavaScript string is modelled by the list of its code units, restricted to the
  units below 256 (the Latin-1 range), one \<^typ>\<open>char\<close> each. The operations below
  (\<open>split\<close>, \<open>trim\<close>, \<open>toLowerCase\<close>, \<open>startsWith\<close>, \<open>includes\<close>, \<open>replace\<close>,
  \<open>slice\<close>) stay inside that range.
\<close>

definition startsWith :: "string \<Rightarrow> string \<Rightarrow> bool" where
  "startsWith s p = (take (length p) s = p)"

fun includes_str :: "string \<Rightarrow> string \<Rightarrow> bool" where
  "includes_str [] p = (p = [])"
| "includes_str (c # cs) p = (startsWith (c # cs) p \<or> includes_str cs p)"

text \<open>
  \<open>s.split(sep)\<close>: the pieces of \<open>s\<close> between the occurrences of \<open>sep\<close>, found from
  left to right without overlap; with the empty separator, the code units of \<open>s\<close>.
  \<open>split_acc\<close> carries the current piece, reversed.
\<close>

function split_acc :: "string \<Rightarrow> string \<Rightarrow> string \<Rightarrow> string list" where
  "split_acc sep cur [] = [rev cur]"
| "split_acc sep cur (c # cs) =
     (if sep \<noteq> [] \<and> startsWith (c # cs) sep
      then rev cur # split_acc sep [] (drop (length sep) (c # cs))
      else split_acc sep (c # cur) cs)"
  by pat_completeness auto
termination
  by (relation "measure (\<lambda>(sep, cur, s). length s)") auto

definition split :: "string \<Rightarrow> string \<Rightarrow> string list" where
  "split s sep = (if sep = [] then map (\<lambda>c. [c]) s else split_acc sep [] s)"

text \<open>
  White space and line terminators, as \<open>trim\<close> and the conversion of a string to a
  number strip them: TAB, LF, VT, FF, CR, SP and NBSP in this range.
\<close>

definition is_space :: "char \<Rightarrow> bool" where
  "is_space c = ((of_char c :: nat) \<in> set [9, 10, 11, 12, 13, 32, 160])"

definition trim :: "string \<Rightarrow> string" where
  "trim s = rev (dropWhile is_space (rev (dropWhile is_space s)))"

definition lower_char :: "char \<Rightarrow> char" where
  "lower_char c =
     (let n = (of_char c :: nat)
      in if (65 \<le> n \<and> n \<le> 90) \<or> (192 \<le> n \<and> n \<le> 222 \<and> n \<noteq> 215)
         then char_of (n + 32) else c)"

definition toLowerCase :: "string \<Rightarrow> string" where
  "toLowerCase s = map lower_char s"

text \<open>\<open>s.replace(p, '')\<close> with a string pattern: the first occurrence of \<open>p\<close> is removed.\<close>

fun remove_first :: "string \<Rightarrow> string \<Rightarrow> string" where
  "remove_first p [] = []"
| "remove_first p (c # cs) =
     (if startsWith (c # cs) p then drop (length p) (c # cs) else c # remove_first p cs)"

section \<open>Arrays through a Set\<close>

text \<open>
  \<open>[...new Set(xs)]\<close>: the elements of \<open>xs\<close> in the order of their first occurrence.
  A Set keeps insertion order and ignores the insertion of a member.
\<close>

definition set_add :: "'a list \<Rightarrow> 'a \<Rightarrow> 'a list" where
  "set_add s x = (if x \<in> set s then s else s @ [x])"

definition uniq :: "'a list \<Rightarrow> 'a list" where
  "uniq xs = fold (\<lambda>x s. set_add s x) xs []"

section \<open>Objects used as dictionaries\<close>

text \<open>
  The graphs and the mapping of version changes are plain objects used as
  dictionaries. Such an object is modelled by the list of its own properties in
  insertion order (the rule that lists integer-like names first is not modelled:
  nothing below depends on the order of the names). Its prototype is
  \<open>Object.prototype\<close>, and reading \<open>obj[k]\<close> follows the prototype chain: when \<open>k\<close> is
  not an own property, the read finds what \<open>Object.prototype\<close> has under that name.

  \<open>Object.prototype\<close> has twelve properties of its own: eleven hold built-in functions
  (\<open>constructor\<close> holds \<open>Object\<close>) and \<open>__proto__\<close> is an accessor, whose getter gives
  the prototype of the object (\<open>Object.prototype\<close> itself for a plain object) and whose
  setter replaces it.
\<close>

definition builtin_names :: "string list" where
  "builtin_names =
     [''constructor'', ''__defineGetter__'', ''__defineSetter__'', ''hasOwnProperty'',
      ''__lookupGetter__'', ''__lookupSetter__'', ''isPrototypeOf'', ''propertyIsEnumerable'',
      ''toString'', ''valueOf'', ''__proto__'', ''toLocaleString'']"

datatype js_string_opt = Undefined | Null | Str string

definition truthy :: "js_string_opt \<Rightarrow> bool" where
  "truthy v = (case v of Str s \<Rightarrow> s \<noteq> [] | _ \<Rightarrow> False)"

datatype js_error = TypeError

text \<open>
  The functions below assign to three properties of what they read from a dictionary:
  \<open>version\<close>, \<open>before\<close> and \<open>after\<close>. When the read has found a built-in object, the
  assignment lands on that object and stays there after the call. The realm records
  it: for the built-in object found under each name of \<^const>\<open>builtin_names\<close> (under
  \<open>__proto__\<close>, \<open>Object.prototype\<close>), the three properties as written so far,
  \<open>undefined\<close> when not written. No other property of a built-in object is ever
  written by these functions, and in the initial realm none is.
\<close>

datatype field = VersionField | BeforeField | AfterField

record props =
  version_prop :: js_string_opt
  before_prop :: js_string_opt
  after_prop :: js_string_opt

definition no_props :: props where
  "no_props = \<lparr>version_prop = Undefined, before_prop = Undefined, after_prop = Undefined\<rparr>"

fun field_of :: "props \<Rightarrow> field \<Rightarrow> js_string_opt" where
  "field_of p VersionField = version_prop p"
| "field_of p BeforeField = before_prop p"
| "field_of p AfterField = after_prop p"

fun with_field :: "props \<Rightarrow> field \<Rightarrow> js_string_opt \<Rightarrow> props" where
  "with_field p VersionField v = p\<lparr>version_prop := v\<rparr>"
| "with_field p BeforeField v = p\<lparr>before_prop := v\<rparr>"
| "with_field p AfterField v = p\<lparr>after_prop := v\<rparr>"

type_synonym realm = "(string \<times> props) list"

definition initial_realm :: realm where
  "initial_realm = []"

definition written :: "realm \<Rightarrow> string \<Rightarrow> props" where
  "written r b = (case map_of r b of None \<Rightarrow> no_props | Some p \<Rightarrow> p)"

text \<open>\<open>obj[k] = v\<close> on own properties: an existing one keeps its place, a new one goes last.\<close>

fun set_prop :: "(string \<times> 'a) list \<Rightarrow> string \<Rightarrow> 'a \<Rightarrow> (string \<times> 'a) list" where
  "set_prop [] k v = [(k, v)]"
| "set_prop ((k', v') # rest) k v =
     (if k' = k then (k, v) # rest else (k', v') # set_prop rest k v)"

text \<open>
  \<open>X.f = v\<close> and \<open>X.f\<close> for the built-in object \<open>X\<close> found under the name \<open>b\<close>. A built-in
  function has no \<open>version\<close>, \<open>before\<close> or \<open>after\<close> of its own unless written, and then
  inherits the one of \<open>Object.prototype\<close>.
\<close>

definition write_builtin :: "realm \<Rightarrow> string \<Rightarrow> field \<Rightarrow> js_string_opt \<Rightarrow> realm" where
  "write_builtin r b f v = set_prop r b (with_field (written r b) f v)"

definition read_builtin :: "realm \<Rightarrow> string \<Rightarrow> field \<Rightarrow> js_string_opt" where
  "read_builtin r b f =
     (if field_of (written r b) f \<noteq> Undefined then field_of (written r b) f
      else field_of (written r ''__proto__'') f)"

text \<open>
  What was written on \<open>Object.prototype\<close> is inherited by every object under the names
  \<open>version\<close>, \<open>before\<close> and \<open>after\<close>.
\<close>

definition pollution :: "realm \<Rightarrow> string \<Rightarrow> js_string_opt" where
  "pollution r k =
     (if k = ''version'' then version_prop (written r ''__proto__'')
      else if k = ''before'' then before_prop (written r ''__proto__'')
      else if k = ''after'' then after_prop (written r ''__proto__'')
      else Undefined)"

text \<open>
  The result of reading \<open>obj[k]\<close> on a plain object: its own property, a built-in
  object (named by the property of \<open>Object.prototype\<close> that holds it), or a primitive:
  a string written earlier on \<open>Object.prototype\<close>, or \<open>undefined\<close>.
\<close>

datatype 'a property = Own 'a | Builtin string | Primitive js_string_opt

definition get_property :: "realm \<Rightarrow> (string \<times> 'a) list \<Rightarrow> string \<Rightarrow> 'a property" where
  "get_property r obj k =
     (case map_of obj k of
        Some v \<Rightarrow> Own v
      | None \<Rightarrow> if k \<in> set builtin_names then Builtin k else Primitive (pollution r k))"

text \<open>The names a plain object inherits a value under: they are not free for a dictionary.\<close>

definition inherited :: "realm \<Rightarrow> string \<Rightarrow> bool" where
  "inherited r k = (k \<in> set builtin_names \<or> pollution r k \<noteq> Undefined)"

definition keys :: "(string \<times> 'a) list \<Rightarrow> string list" where
  \<comment> \<open>\<open>Object.keys(obj)\<close>\<close>
  "keys obj = map fst obj"

section \<open>The dependency graph\<close>

text \<open>
  A node is the object \<open>{ version, vias, deps }\<close> with these three properties of its
  own, as the nodes that the parser and the merger make. The version is a string,
  \<open>null\<close> (a package only seen as a via) or \<open>undefined\<close> (a node of a merge whose
  sources have no version). A graph is a plain object whose own properties are nodes.
\<close>

record node =
  version :: js_string_opt
  vias :: "string list"
  deps :: "string list"

type_synonym graph = "(string \<times> node) list"


definition deps_or_empty :: "graph \<Rightarrow> string \<Rightarrow> string list" where
  "deps_or_empty obj key = (case map_of obj key of None \<Rightarrow> [] | Some n \<Rightarrow> deps n)"

definition vias_or_empty :: "graph \<Rightarrow> string \<Rightarrow> string list" where
  "vias_or_empty obj key = (case map_of obj key of None \<Rightarrow> [] | Some n \<Rightarrow> vias n)"

subsection \<open>allDescendantPackages\<close>

text \<open>
  \<^verbatim>\<open>
  async allDescendantPackages(parent) {
    const tree = await this.getSubPackageTree();
    let descendants = [];
    for (const child of tree[parent] || []) {
      descendants = [...new Set([...descendants, ...(await this.allDescendantPackages(child))])];
    }
    return [parent, ...descendants];
  }
  \<close>
  The tree is the merged graph, a parameter here: a plain object whose prototype is
  \<open>Object.prototype\<close>, as the merges of what the parser returns are. \<open>|| []\<close> replaces a falsy value
  (\<open>undefined\<close>, \<open>null\<close>, the empty string) by the empty array and keeps any other;
  \<open>for ... of\<close> asks its operand for an iterator, which an array and a string have (a
  string gives its characters) and which a node, a built-in function and
  \<open>Object.prototype\<close> have not (TypeError). The recursion is bounded by fuel: \<open>None\<close> is
  "out of fuel".
\<close>

definition iterate_or_empty :: "node property \<Rightarrow> js_error + string list" where
  "iterate_or_empty v =
     (case v of
        Own n \<Rightarrow> Inl TypeError
      | Builtin b \<Rightarrow> Inl TypeError
      | Primitive Undefined \<Rightarrow> Inr []
      | Primitive Null \<Rightarrow> Inr []
      | Primitive (Str s) \<Rightarrow> Inr (map (\<lambda>c. [c]) s))"

fun for_children ::
  "(string \<Rightarrow> (js_error + string list) option) \<Rightarrow> string list \<Rightarrow> string list
     \<Rightarrow> (js_error + string list) option" where
  "for_children recurse [] descendants = Some (Inr descendants)"
| "for_children recurse (child # rest) descendants =
     (case recurse child of
        None \<Rightarrow> None
      | Some (Inl e) \<Rightarrow> Some (Inl e)
      | Some (Inr sub) \<Rightarrow> for_children recurse rest (uniq (descendants @ sub)))"

primrec allDescendantPackages ::
  "nat \<Rightarrow> realm \<Rightarrow> graph \<Rightarrow> string \<Rightarrow> (js_error + string list) option" where
  "allDescendantPackages 0 r tree parent = None"
| "allDescendantPackages (Suc fuel) r tree parent =
     (case iterate_or_empty (get_property r tree parent) of
        Inl e \<Rightarrow> Some (Inl e)
      | Inr children \<Rightarrow>
          (case for_children (allDescendantPackages fuel r tree) children [] of
             None \<Rightarrow> None
           | Some (Inl e) \<Rightarrow> Some (Inl e)
           | Some (Inr descendants) \<Rightarrow> Some (Inr (parent # descendants))))"

subsection \<open>mergeParsedRequirementsTree\<close>

text \<open>
  \<^verbatim>\<open>
  export function mergeParsedRequirementsTree(obj1, obj2) {
    const keys = new Set([...Object.keys(obj1), ...Object.keys(obj2)]);
    const merged = {};
    keys.forEach((key) => {
      merged[key] = {
        deps: [...new Set([...(obj1[key]?.deps || []), ...(obj2[key]?.deps || [])])],
        vias: [...new Set([...(obj1[key]?.vias || []), ...(obj2[key]?.vias || [])])],
        version: obj1[key]?.version || obj2[key]?.version,
      };
    });
    return merged;
  }
  \<close>
  \<open>obj[key]\<close> is read for the keys of either graph, so in one of them it may find an
  inherited value. \<open>?.\<close> gives \<open>undefined\<close> on \<open>undefined\<close> and \<open>null\<close>; a built-in object
  and a string have no \<open>deps\<close> and no \<open>vias\<close>; their \<open>version\<close> is what has been
  written on them or on \<open>Object.prototype\<close>.
\<close>

definition read_deps :: "realm \<Rightarrow> graph \<Rightarrow> string \<Rightarrow> string list" where
  \<comment> \<open>\<open>obj[key]?.deps || []\<close>\<close>
  "read_deps r obj key = (case get_property r obj key of Own n \<Rightarrow> deps n | _ \<Rightarrow> [])"

definition read_vias :: "realm \<Rightarrow> graph \<Rightarrow> string \<Rightarrow> string list" where
  \<comment> \<open>\<open>obj[key]?.vias || []\<close>\<close>
  "read_vias r obj key = (case get_property r obj key of Own n \<Rightarrow> vias n | _ \<Rightarrow> [])"

definition read_version :: "realm \<Rightarrow> graph \<Rightarrow> string \<Rightarrow> js_string_opt" where
  \<comment> \<open>\<open>obj[key]?.version\<close>\<close>
  "read_version r obj key =
     (case get_property r obj key of
        Own n \<Rightarrow> version n
      | Builtin b \<Rightarrow> read_builtin r b VersionField
      | Primitive Undefined \<Rightarrow> Undefined
      | Primitive Null \<Rightarrow> Undefined
      | Primitive (Str s) \<Rightarrow> pollution r ''version'')"

definition js_or :: "js_string_opt \<Rightarrow> js_string_opt \<Rightarrow> js_string_opt" where
  "js_or a b = (if truthy a then a else b)"

definition merged_node :: "realm \<Rightarrow> graph \<Rightarrow> graph \<Rightarrow> string \<Rightarrow> node" where
  "merged_node r obj1 obj2 key =
     \<lparr>version = js_or (read_version r obj1 key) (read_version r obj2 key),
      vias = uniq (read_vias r obj1 key @ read_vias r obj2 key),
      deps = uniq (read_deps r obj1 key @ read_deps r obj2 key)\<rparr>"

text \<open>
  \<open>merged\<close> starts as \<open>{}\<close>. \<open>merged[key] = node\<close> makes or replaces an own property,
  except under the name \<open>__proto__\<close> when \<open>merged\<close> has no own property of that name: the
  assignment then runs the setter of \<open>Object.prototype\<close>, which makes the node the
  prototype of \<open>merged\<close> and adds no property. The result is the own properties of
  \<open>merged\<close> and its prototype (\<open>None\<close> is \<open>Object.prototype\<close>, unchanged).
\<close>

record merged_object =
  own_props :: graph
  prototype :: "node option"

definition assign_merged :: "merged_object \<Rightarrow> string \<Rightarrow> node \<Rightarrow> merged_object" where
  "assign_merged merged key n =
     (if key = ''__proto__'' \<and> map_of (own_props merged) key = None
      then merged\<lparr>prototype := Some n\<rparr>
      else merged\<lparr>own_props := set_prop (own_props merged) key n\<rparr>)"

definition mergeParsedRequirementsTree :: "realm \<Rightarrow> graph \<Rightarrow> graph \<Rightarrow> merged_object" where
  "mergeParsedRequirementsTree r obj1 obj2 =
     (let ks = uniq (keys obj1 @ keys obj2)
      in fold (\<lambda>key merged. assign_merged merged key (merged_node r obj1 obj2 key)) ks
           \<lparr>own_props = [], prototype = None\<rparr>)"

text \<open>
  The words of the specification for a deduplicated sequence: every element once, at
  the place of its first occurrence.
\<close>

function keep_first :: "'a list \<Rightarrow> 'a list" where
  "keep_first [] = []"
| "keep_first (x # xs) = x # keep_first (removeAll x xs)"
  by pat_completeness auto
termination
  by (relation "measure length") (auto simp: less_Suc_eq_le length_removeAll_less_eq)



text \<open>The graph of the parser's test: alembic pinned, pulled in by flask-migrate.\<close>

definition alembic_graph :: graph where
  "alembic_graph =
     [(''alembic'', \<lparr>version = Str ''1.13.1'', vias = [''flask-migrate''], deps = []\<rparr>),
      (''flask-migrate'', \<lparr>version = Null, vias = [], deps = [''alembic'']\<rparr>)]"

text \<open>
  A graph with a node under the own key \<open>__proto__\<close> (as \<open>JSON.parse\<close> or a computed key
  makes one), pulled in by \<open>x\<close>.
\<close>

definition proto_graph :: graph where
  "proto_graph =
     [(''__proto__'', \<lparr>version = Str ''1'', vias = [''x''], deps = []\<rparr>),
      (''x'', \<lparr>version = Null, vias = [], deps = [''__proto__'']\<rparr>)]"


subsection \<open>parsePinnedRequirementsTree\<close>

text \<open>
  \<^verbatim>\<open>
  export function parsePinnedRequirementsTree(requirements) {
    const lines = requirements
      .split('\n')
      .filter((line) => !line.startsWith('#'))
      .map((line) => line.trim().toLowerCase())
      .filter((line) => !line.startsWith('# via -r '))
      .filter((line) => !line.startsWith('-e '))
      .filter((line) => !!line);
    const depsObject = {};
    let currentDep = null;
    lines.forEach((line) => {
      const depMatch = line.match(/^(.+)==(.*)/);
      if (depMatch) {
        currentDep = depMatch[1].trim();
        const version = depMatch[2].trim();
        if (currentDep && depsObject[currentDep] === undefined) {
          depsObject[currentDep] = { version, vias: [], deps: [] };
        } else if (version) {
          depsObject[currentDep].version = version;
        }
      } else {
        const viaLib = line.replace('# via', '').trim().replace('#', '').trim();
        if (viaLib && currentDep) {
          if (depsObject[viaLib] === undefined) {
            depsObject[viaLib] = { deps: [], version: null, vias: [] };
          }
          depsObject[viaLib].deps.push(currentDep);
          if (depsObject[currentDep] === undefined) {
            depsObject[currentDep] = { deps: [], version: null, vias: [] };
          }
          depsObject[currentDep].vias.push(viaLib);
        }
      }
    });
    return depsObject;
  }
  \<close>
  The regular expression \<open>/^(.+)==(.*)/\<close> has no flags: \<open>.\<close> matches any unit but a
  line terminator (LF and CR in this range), and both groups are greedy. The first
  group starts at the start of the line and cannot leave the run \<open>p\<close> of units before
  the first line terminator; it is tried at its longest first and then shorter, down
  to one unit, until \<open>==\<close> follows it. The second group is the rest of \<open>p\<close>.
\<close>

definition is_line_terminator :: "char \<Rightarrow> bool" where
  "is_line_terminator c = ((of_char c :: nat) \<in> set [10, 13])"

fun match_dep_at :: "string \<Rightarrow> nat \<Rightarrow> (string \<times> string) option" where
  "match_dep_at p 0 = None"
| "match_dep_at p (Suc i) =
     (if take 2 (drop (Suc i) p) = ''==''
      then Some (take (Suc i) p, drop (Suc i + 2) p)
      else match_dep_at p i)"

definition depMatch :: "string \<Rightarrow> (string \<times> string) option" where
  "depMatch line =
     (let p = takeWhile (\<lambda>c. \<not> is_line_terminator c) line in match_dep_at p (length p))"

definition via_name :: "string \<Rightarrow> string" where
  "via_name line = trim (remove_first ''#'' (trim (remove_first ''# via'' line)))"

text \<open>
  \<open>if (depsObject[k] === undefined) depsObject[k] = { deps: [], version: null, vias: [] }\<close>:
  only \<open>undefined\<close> makes the node; an inherited value does not.
\<close>

definition ensure_node :: "realm \<Rightarrow> graph \<Rightarrow> string \<Rightarrow> graph" where
  "ensure_node r obj k =
     (if get_property r obj k = Primitive Undefined
      then set_prop obj k \<lparr>version = Null, vias = [], deps = []\<rparr>
      else obj)"

text \<open>
  \<open>depsObject[k].deps.push(x)\<close> and \<open>depsObject[k].vias.push(x)\<close>: on a node, the array
  grows. A built-in object and a string have no \<open>deps\<close> and no \<open>vias\<close>, and neither
  \<open>undefined\<close> nor \<open>null\<close> has properties: the call raises a TypeError.
\<close>

definition push_to_node ::
  "realm \<Rightarrow> graph \<Rightarrow> string \<Rightarrow> (node \<Rightarrow> node) \<Rightarrow> js_error + graph" where
  "push_to_node r obj k f =
     (case get_property r obj k of
        Own n \<Rightarrow> Inr (set_prop obj k (f n))
      | _ \<Rightarrow> Inl TypeError)"

text \<open>
  \<open>depsObject[k].version = version\<close>: on a node, the version changes; on a built-in
  object, the assignment is recorded in the realm; on \<open>undefined\<close> and \<open>null\<close>, and on a
  string (the module is in strict mode), it raises a TypeError.
\<close>

definition assign_version ::
  "realm \<Rightarrow> graph \<Rightarrow> string \<Rightarrow> string \<Rightarrow> js_error + graph \<times> realm" where
  "assign_version r obj k ver =
     (case get_property r obj k of
        Own n \<Rightarrow> Inr (set_prop obj k (n\<lparr>version := Str ver\<rparr>), r)
      | Builtin b \<Rightarrow> Inr (obj, write_builtin r b VersionField (Str ver))
      | Primitive v \<Rightarrow> Inl TypeError)"

text \<open>
  The state of the loop: \<open>depsObject\<close>, \<open>currentDep\<close> (\<open>None\<close> is \<open>null\<close>) and the realm. An
  error comes with the realm it leaves behind.
\<close>

type_synonym parse_state = "graph \<times> string option \<times> realm"

definition parse_line :: "parse_state \<Rightarrow> string \<Rightarrow> js_error \<times> realm + parse_state" where
  "parse_line st line =
     (case st of (depsObject, previousDep, r) \<Rightarrow>
       (case depMatch line of
          Some (g1, g2) \<Rightarrow>
            let currentDep = trim g1; ver = trim g2
            in if currentDep \<noteq> [] \<and> get_property r depsObject currentDep = Primitive Undefined
               then Inr (set_prop depsObject currentDep
                           \<lparr>version = Str ver, vias = [], deps = []\<rparr>,
                         Some currentDep, r)
               else if ver \<noteq> []
               then (case assign_version r depsObject currentDep ver of
                       Inl e \<Rightarrow> Inl (e, r)
                     | Inr (depsObject', r') \<Rightarrow> Inr (depsObject', Some currentDep, r'))
               else Inr (depsObject, Some currentDep, r)
        | None \<Rightarrow>
            let viaLib = via_name line
            in (case previousDep of
                  None \<Rightarrow> Inr st
                | Some currentDep \<Rightarrow>
                    if viaLib \<noteq> [] \<and> currentDep \<noteq> []
                    then (case push_to_node r (ensure_node r depsObject viaLib) viaLib
                                 (\<lambda>n. n\<lparr>deps := deps n @ [currentDep]\<rparr>) of
                            Inl e \<Rightarrow> Inl (e, r)
                          | Inr d1 \<Rightarrow>
                              (case push_to_node r (ensure_node r d1 currentDep) currentDep
                                      (\<lambda>n. n\<lparr>vias := vias n @ [viaLib]\<rparr>) of
                                 Inl e \<Rightarrow> Inl (e, r)
                               | Inr d2 \<Rightarrow> Inr (d2, Some currentDep, r)))
                    else Inr st)))"

fun parse_lines :: "parse_state \<Rightarrow> string list \<Rightarrow> js_error \<times> realm + parse_state" where
  "parse_lines st [] = Inr st"
| "parse_lines st (line # rest) =
     (case parse_line st line of
        Inl e \<Rightarrow> Inl e
      | Inr st' \<Rightarrow> parse_lines st' rest)"

definition requirement_lines :: "string \<Rightarrow> string list" where
  "requirement_lines requirements =
     filter (\<lambda>line. line \<noteq> [])
       (filter (\<lambda>line. \<not> startsWith line ''-e '')
         (filter (\<lambda>line. \<not> startsWith line ''# via -r '')
           (map (\<lambda>line. toLowerCase (trim line))
             (filter (\<lambda>line. \<not> startsWith line ''#'')
               (split requirements ''\<newline>'')))))"

text \<open>The parser in a realm: the graph, or the error, and the realm after the call.\<close>

definition parsePinnedRequirementsTree ::
  "realm \<Rightarrow> string \<Rightarrow> js_error \<times> realm + graph \<times> realm" where
  "parsePinnedRequirementsTree r requirements =
     (case parse_lines ([], None, r) (requirement_lines requirements) of
        Inl e \<Rightarrow> Inl e
      | Inr (depsObject, currentDep, r') \<Rightarrow> Inr (depsObject, r'))"

text \<open>
  The edges of a text in the words of the specification, over the lines that are left
  after the preprocessing: a line \<open>name==version\<close> makes \<open>name\<close> the current package;
  any other line is a via-annotation line, and when it names a via-package while a
  current package is set, it is an edge between the two. The packages of a text are
  the names of its pinned lines and the via-packages of its edges.
\<close>

fun spec_edges :: "string option \<Rightarrow> string list \<Rightarrow> (string \<times> string) list" where
  "spec_edges current [] = []"
| "spec_edges current (line # rest) =
     (case depMatch line of
        Some (name, ver) \<Rightarrow> spec_edges (Some (trim name)) rest
      | None \<Rightarrow>
          (case current of
             None \<Rightarrow> spec_edges current rest
           | Some package \<Rightarrow>
               if via_name line \<noteq> [] \<and> package \<noteq> []
               then (package, via_name line) # spec_edges current rest
               else spec_edges current rest))"

definition spec_pinned :: "string list \<Rightarrow> string list" where
  "spec_pinned lines =
     map (\<lambda>(name, ver). trim name) (List.map_filter depMatch lines)"

definition spec_packages :: "string option \<Rightarrow> string list \<Rightarrow> string list" where
  "spec_packages current lines =
     spec_pinned lines @ map fst (spec_edges current lines) @ map snd (spec_edges current lines)"

definition edges_into :: "string \<Rightarrow> (string \<times> string) list \<Rightarrow> string list" where
  "edges_into via es = map fst (filter (\<lambda>(package, v). v = via) es)"

definition edges_from :: "string \<Rightarrow> (string \<times> string) list \<Rightarrow> string list" where
  "edges_from package es = map snd (filter (\<lambda>(p, via). p = package) es)"

definition spec_deps :: "string list \<Rightarrow> string \<Rightarrow> string list" where
  \<comment> \<open>the packages that name \<open>via\<close> in a via-annotation line, in the order of the text\<close>
  "spec_deps lines via = map fst (filter (\<lambda>(package, v). v = via) (spec_edges None lines))"

definition spec_vias :: "string list \<Rightarrow> string \<Rightarrow> string list" where
  \<comment> \<open>the via-packages of the via-annotation lines of \<open>package\<close>, in the order of the text\<close>
  "spec_vias lines package = map snd (filter (\<lambda>(p, via). p = package) (spec_edges None lines))"

text \<open>
  The bidirectional-edge invariant, as a check over the keys of a graph: whatever a
  node lists in its \<open>deps\<close> lists that node in its \<open>vias\<close>, and conversely. (A name
  without a node has neither \<open>deps\<close> nor \<open>vias\<close>, so both ends of an edge are keys.)
\<close>

definition bidirectional :: "graph \<Rightarrow> bool" where
  "bidirectional g =
     ((\<forall>B \<in> set (keys g). \<forall>A \<in> set (deps_or_empty g B). B \<in> set (vias_or_empty g A)) \<and>
      (\<forall>A \<in> set (keys g). \<forall>B \<in> set (vias_or_empty g A). A \<in> set (deps_or_empty g B)))"

text \<open>
  The same invariant as a statement about all names, for the proofs, and the lines the
  parser's loop meets: not empty, and starting with something other than white space.
\<close>

definition edges_agree :: "graph \<Rightarrow> bool" where
  "edges_agree g =
     (\<forall>A B. A \<in> set (deps_or_empty g B) \<longleftrightarrow> B \<in> set (vias_or_empty g A))"

definition good_line :: "string \<Rightarrow> bool" where
  "good_line l = (l \<noteq> [] \<and> \<not> is_space (hd l))"

text \<open>A second graph of the parser's tests: attrs, pulled in by cattrs and jsonschema.\<close>

definition attrs_graph :: graph where
  "attrs_graph =
     [(''attrs'', \<lparr>version = Str ''23.1.0'', vias = [''cattrs'', ''jsonschema''], deps = []\<rparr>),
      (''cattrs'', \<lparr>version = Null, vias = [], deps = [''attrs'']\<rparr>),
      (''jsonschema'', \<lparr>version = Null, vias = [], deps = [''attrs'']\<rparr>)]"

section \<open>The version-diff extractor\<close>

text \<open>
  \<^verbatim>\<open>
  processPythonReqsDiffOutput(rawOutput) {
    const lines = rawOutput.split('\n');
    const result = {};
    lines.forEach((line) => {
      if (!line.includes('==')) {
        return;
      }
      const isDeletion = line.startsWith('-');
      const isAddition = line.startsWith('+');
      if (isDeletion || isAddition) {
        const [pythonPackage, version] = line.slice(1).split('==');
        const lib = pythonPackage.toLowerCase();
        if (!result[lib]) {
          result[lib] = { before: null, after: null };
        }
        if (isDeletion) {
          result[lib].before = version;
        } else if (isAddition) {
          result[lib].after = version;
        }
      }
    });
    return result;
  }
  \<close>
  The destructuring gives \<open>undefined\<close> to a name with no element, and \<open>toLowerCase\<close> of
  \<open>undefined\<close> raises a TypeError.
\<close>

record change =
  before_ver :: js_string_opt
  after_ver :: js_string_opt

type_synonym changes = "(string \<times> change) list"

text \<open>
  \<open>if (!result[lib]) result[lib] = { before: null, after: null }\<close>: an entry, a built-in
  object and a non-empty string are truthy; \<open>undefined\<close>, \<open>null\<close> and the empty string
  make the entry.
\<close>

definition falsy :: "'a property \<Rightarrow> bool" where
  "falsy v = (case v of Own x \<Rightarrow> False | Builtin b \<Rightarrow> False | Primitive p \<Rightarrow> \<not> truthy p)"

definition ensure_entry :: "realm \<Rightarrow> changes \<Rightarrow> string \<Rightarrow> changes" where
  "ensure_entry r result lib =
     (if falsy (get_property r result lib)
      then set_prop result lib \<lparr>before_ver = Null, after_ver = Null\<rparr>
      else result)"

text \<open>
  \<open>result[lib].before = version\<close> and \<open>result[lib].after = version\<close>: on an entry, the
  field changes; on a built-in object, the assignment is recorded in the realm; on a
  primitive it raises a TypeError (the module is in strict mode).
\<close>

definition assign_change ::
  "realm \<Rightarrow> changes \<Rightarrow> string \<Rightarrow> bool \<Rightarrow> js_string_opt \<Rightarrow> js_error + changes \<times> realm" where
  "assign_change r result lib isDeletion ver =
     (case get_property r result lib of
        Own entry \<Rightarrow>
          Inr (set_prop result lib
                 (if isDeletion then entry\<lparr>before_ver := ver\<rparr> else entry\<lparr>after_ver := ver\<rparr>),
               r)
      | Builtin b \<Rightarrow>
          Inr (result, write_builtin r b (if isDeletion then BeforeField else AfterField) ver)
      | Primitive v \<Rightarrow> Inl TypeError)"

text \<open>The state of the loop: \<open>result\<close> and the realm.\<close>

type_synonym diff_state = "changes \<times> realm"

definition process_line :: "diff_state \<Rightarrow> string \<Rightarrow> js_error \<times> realm + diff_state" where
  "process_line st line =
     (case st of (result, r) \<Rightarrow>
       if \<not> includes_str line ''=='' then Inr st
       else
         let isDeletion = startsWith line ''-'';
             isAddition = startsWith line ''+''
         in if isDeletion \<or> isAddition then
              (case split (drop 1 line) ''=='' of
                 [] \<Rightarrow> Inl (TypeError, r)
               | pythonPackage # rest \<Rightarrow>
                   let ver = (case rest of [] \<Rightarrow> Undefined | v # _ \<Rightarrow> Str v);
                       lib = toLowerCase pythonPackage;
                       result1 = ensure_entry r result lib
                   in (case assign_change r result1 lib isDeletion ver of
                         Inl e \<Rightarrow> Inl (e, r)
                       | Inr st' \<Rightarrow> Inr st'))
            else Inr st)"

fun process_lines :: "diff_state \<Rightarrow> string list \<Rightarrow> js_error \<times> realm + diff_state" where
  "process_lines st [] = Inr st"
| "process_lines st (line # rest) =
     (case process_line st line of
        Inl e \<Rightarrow> Inl e
      | Inr st' \<Rightarrow> process_lines st' rest)"

text \<open>The extractor in a realm: the mapping, or the error, and the realm after the call.\<close>

definition processPythonReqsDiffOutput ::
  "realm \<Rightarrow> string \<Rightarrow> js_error \<times> realm + changes \<times> realm" where
  "processPythonReqsDiffOutput r rawOutput =
     process_lines ([], r) (split rawOutput ''\<newline>'')"

text \<open>
  The extractor in the words of the specification. A line counts when it contains \<open>==\<close>
  and begins with \<open>-\<close> (a removal) or \<open>+\<close> (an addition); the marker is stripped, the
  rest is split on \<open>==\<close>, and the package name is lowercased. The entry of a package
  exists when a line counts for it; its \<open>before\<close> is the version of the last removal
  line of the package and its \<open>after\<close> that of the last addition line, \<open>null\<close> when
  there is none.
\<close>

definition spec_pin_line :: "string \<Rightarrow> (bool \<times> string \<times> string) option" where
  "spec_pin_line line =
     (if includes_str line ''=='' \<and> (startsWith line ''-'' \<or> startsWith line ''+'')
      then (case split (drop 1 line) ''=='' of
              name # ver # _ \<Rightarrow> Some (startsWith line ''-'', toLowerCase name, ver)
            | _ \<Rightarrow> None)
      else None)"

definition spec_pins :: "string list \<Rightarrow> string \<Rightarrow> (bool \<times> string) list" where
  "spec_pins lines pkg =
     map (\<lambda>(removal, name, ver). (removal, ver))
       (filter (\<lambda>(removal, name, ver). name = pkg) (List.map_filter spec_pin_line lines))"

definition last_version :: "string list \<Rightarrow> js_string_opt" where
  "last_version vs = (if vs = [] then Null else Str (last vs))"

definition spec_changes :: "string list \<Rightarrow> string \<Rightarrow> change option" where
  "spec_changes lines pkg =
     (let pins = spec_pins lines pkg
      in if pins = [] then None
         else Some \<lparr>before_ver = last_version (map snd (filter fst pins)),
                    after_ver = last_version (map snd (filter (\<lambda>p. \<not> fst p) pins))\<rparr>)"

definition spec_extractChanges :: "string \<Rightarrow> string \<Rightarrow> change option" where
  "spec_extractChanges diffText pkg = spec_changes (split diffText ''\<newline>'') pkg"

definition pin_names :: "string list \<Rightarrow> string list" where
  \<comment> \<open>the package names of the lines that count\<close>
  "pin_names lines = map (\<lambda>(removal, name, ver). name) (List.map_filter spec_pin_line lines)"

definition diff_packages :: "string \<Rightarrow> string list" where
  "diff_packages diffText = pin_names (split diffText ''\<newline>'')"

text \<open>
  The entry a line finds or creates for its package, and the property that an entry
  holds a version string in one of its fields.
\<close>

definition entry_or_new :: "changes \<Rightarrow> string \<Rightarrow> change" where
  "entry_or_new result lib =
     (case map_of result lib of
        None \<Rightarrow> \<lparr>before_ver = Null, after_ver = Null\<rparr>
      | Some e \<Rightarrow> e)"

definition is_string :: "js_string_opt \<Rightarrow> bool" where
  "is_string v = (case v of Str s \<Rightarrow> True | _ \<Rightarrow> False)"

definition has_version :: "change \<Rightarrow> bool" where
  "has_version c = (is_string (before_ver c) \<or> is_string (after_ver c))"

section \<open>The version comparator\<close>

text \<open>
  \<^verbatim>\<open>
  export function compareSemVer(a, b) {
    const splitA = a.split('.').map(Number);
    const splitB = b.split('.').map(Number);
    for (let i = 0; i < 3; i++) {
      if (splitA[i] > splitB[i]) return 1;
      if (splitA[i] < splitB[i]) return -1;
    }
    return 0; // Versions are equal
  }
  \<close>
\<close>

subsection \<open>Numbers\<close>

text \<open>
  A JavaScript number is NaN, an infinity or a finite IEEE 754 double, kept here as the
  rational it denotes (\<open>-0\<close> and \<open>+0\<close> are both the rational 0: no comparison tells
  them apart). \<open>js_less\<close> is \<open><\<close> on numbers: false whenever an operand is NaN.
\<close>

datatype js_number = NaN | NegInfinity | Finite rat | PosInfinity

fun js_less :: "js_number \<Rightarrow> js_number \<Rightarrow> bool" where
  "js_less NaN y = False"
| "js_less x NaN = False"
| "js_less PosInfinity y = False"
| "js_less x NegInfinity = False"
| "js_less NegInfinity y = True"
| "js_less x PosInfinity = True"
| "js_less (Finite x) (Finite y) = (x < y)"

text \<open>
  \<open>to_double\<close> rounds a rational to the nearest double, ties to the even significand:
  with \<open>e\<close> the binary exponent of the value (not below that of the subnormals) the
  doubles around it are the multiples of \<open>2 ^ (e - 52)\<close>; a result of \<open>2 ^ 1024\<close> or
  more is an infinity.
\<close>

definition pow2 :: "int \<Rightarrow> rat" where
  "pow2 k = (if 0 \<le> k then 2 ^ nat k else 1 / 2 ^ nat (- k))"

definition pow10 :: "int \<Rightarrow> rat" where
  "pow10 k = (if 0 \<le> k then 10 ^ nat k else 1 / 10 ^ nat (- k))"

definition floor_log2 :: "rat \<Rightarrow> int" where
  "floor_log2 a =
     (let (p, q) = quotient_of a; k = bitlen p - bitlen q
      in if pow2 k \<le> a then k else k - 1)"

definition round_half_even :: "rat \<Rightarrow> int" where
  "round_half_even x =
     (let f = \<lfloor>x\<rfloor>; r = x - of_int f
      in if r < 1 / 2 then f else if 1 / 2 < r then f + 1 else if even f then f else f + 1)"

definition to_double :: "rat \<Rightarrow> js_number" where
  "to_double x =
     (if x = 0 then Finite 0
      else
        let a = \<bar>x\<bar>;
            e = max (floor_log2 a) (- 1022);
            u = e - 52;
            m = round_half_even (a / pow2 u)
        in if 1023 < e \<or> (e = 1023 \<and> m = 2 ^ 53)
           then (if 0 < x then PosInfinity else NegInfinity)
           else Finite (sgn x * of_int m * pow2 u))"

text \<open>
  \<open>Number(s)\<close> on a string: white space and line terminators are stripped from both
  ends; the empty string is 0; \<open>0x\<close>, \<open>0o\<close> and \<open>0b\<close> (either case) start an unsigned
  hexadecimal, octal or binary integer; otherwise an optional sign is followed by
  \<open>Infinity\<close> or by decimal digits with an optional fraction and an optional exponent;
  anything else is NaN.
\<close>

definition digit_value :: "char \<Rightarrow> int option" where
  "digit_value c =
     (let n = (of_char c :: nat)
      in if 48 \<le> n \<and> n \<le> 57 then Some (int n - 48)
         else if 97 \<le> n \<and> n \<le> 102 then Some (int n - 87)
         else if 65 \<le> n \<and> n \<le> 70 then Some (int n - 55)
         else None)"

definition is_digit :: "char \<Rightarrow> bool" where
  "is_digit c = (48 \<le> (of_char c :: nat) \<and> (of_char c :: nat) \<le> 57)"

fun radix_value :: "int \<Rightarrow> int \<Rightarrow> string \<Rightarrow> int option" where
  "radix_value b acc [] = Some acc"
| "radix_value b acc (c # cs) =
     (case digit_value c of
        None \<Rightarrow> None
      | Some d \<Rightarrow> if d < b then radix_value b (acc * b + d) cs else None)"

definition digits :: "int \<Rightarrow> string \<Rightarrow> int option" where
  "digits b s = (if s = [] then None else radix_value b 0 s)"

definition exponent_part :: "string \<Rightarrow> int option" where
  "exponent_part s =
     (case s of
        [] \<Rightarrow> Some 0
      | c # cs \<Rightarrow>
          if c = CHR ''e'' \<or> c = CHR ''E''
          then (case cs of
                  [] \<Rightarrow> None
                | d # ds \<Rightarrow>
                    if d = CHR ''+'' then digits 10 ds
                    else if d = CHR ''-'' then map_option uminus (digits 10 ds)
                    else digits 10 cs)
          else None)"

definition unsigned_decimal :: "string \<Rightarrow> js_number" where
  "unsigned_decimal s =
     (if s = ''Infinity'' then PosInfinity
      else
        let ip = takeWhile is_digit s;
            r1 = dropWhile is_digit s;
            fp = (if startsWith r1 ''.'' then takeWhile is_digit (drop 1 r1) else []);
            r2 = (if startsWith r1 ''.'' then dropWhile is_digit (drop 1 r1) else r1)
        in if ip = [] \<and> fp = [] then NaN
           else (case (radix_value 10 0 (ip @ fp), exponent_part r2) of
                   (Some n, Some e) \<Rightarrow> to_double (of_int n * pow10 (e - int (length fp)))
                 | _ \<Rightarrow> NaN))"

definition negate :: "js_number \<Rightarrow> js_number" where
  "negate x = (case x of NaN \<Rightarrow> NaN | NegInfinity \<Rightarrow> PosInfinity | PosInfinity \<Rightarrow> NegInfinity
               | Finite q \<Rightarrow> Finite (- q))"

definition Number :: "string \<Rightarrow> js_number" where
  "Number s =
     (let t = trim s
      in if t = [] then Finite 0
         else if startsWith t ''0x'' \<or> startsWith t ''0X''
         then (case digits 16 (drop 2 t) of None \<Rightarrow> NaN | Some n \<Rightarrow> to_double (of_int n))
         else if startsWith t ''0o'' \<or> startsWith t ''0O''
         then (case digits 8 (drop 2 t) of None \<Rightarrow> NaN | Some n \<Rightarrow> to_double (of_int n))
         else if startsWith t ''0b'' \<or> startsWith t ''0B''
         then (case digits 2 (drop 2 t) of None \<Rightarrow> NaN | Some n \<Rightarrow> to_double (of_int n))
         else if startsWith t ''+'' then unsigned_decimal (drop 1 t)
         else if startsWith t ''-'' then negate (unsigned_decimal (drop 1 t))
         else unsigned_decimal t)"

subsection \<open>compareSemVer\<close>

text \<open>
  \<open>splitA[i]\<close> is \<open>undefined\<close> (\<open>None\<close>) beyond the end of the array, and a relational
  operator converts \<open>undefined\<close> to NaN.
\<close>

definition element_at :: "js_number list \<Rightarrow> nat \<Rightarrow> js_number option" where
  "element_at xs i = (if i < length xs then Some (xs ! i) else None)"

definition ToNumber :: "js_number option \<Rightarrow> js_number" where
  "ToNumber v = (case v of None \<Rightarrow> NaN | Some x \<Rightarrow> x)"

definition js_gt :: "js_number option \<Rightarrow> js_number option \<Rightarrow> bool" where
  "js_gt x y = js_less (ToNumber y) (ToNumber x)"

definition js_lt :: "js_number option \<Rightarrow> js_number option \<Rightarrow> bool" where
  "js_lt x y = js_less (ToNumber x) (ToNumber y)"

function compare_from :: "nat \<Rightarrow> js_number list \<Rightarrow> js_number list \<Rightarrow> int" where
  "compare_from i splitA splitB =
     (if i < 3
      then if js_gt (element_at splitA i) (element_at splitB i) then 1
           else if js_lt (element_at splitA i) (element_at splitB i) then - 1
           else compare_from (i + 1) splitA splitB
      else 0)"
  by pat_completeness auto
termination
  by (relation "measure (\<lambda>(i, splitA, splitB). 3 - i)") auto

declare compare_from.simps [simp del]


definition compareSemVer :: "string \<Rightarrow> string \<Rightarrow> int" where
  "compareSemVer a b =
     compare_from 0 (map Number (split a ''.'')) (map Number (split b ''.''))"



text \<open>
  The comparison in the words of the specification, on components that are decimal
  digit strings: each is read as an integer, and the first position where the two
  versions differ decides.
\<close>

definition decimal :: "string \<Rightarrow> bool" where
  "decimal c = (c \<noteq> [] \<and> (\<forall>ch \<in> set c. is_digit ch))"

definition decimal_value :: "string \<Rightarrow> int" where
  "decimal_value c = foldl (\<lambda>acc ch. acc * 10 + (int (of_char ch) - 48)) 0 c"

fun spec_compare :: "int list \<Rightarrow> int list \<Rightarrow> int" where
  "spec_compare (x # xs) (y # ys) =
     (if x < y then - 1 else if y < x then 1 else spec_compare xs ys)"
| "spec_compare xs ys = 0"




section \<open>Theorems\<close>

subsection \<open>Dictionaries and Sets\<close>

lemma map_of_set_prop: "map_of (set_prop g k v) = (map_of g)(k \<mapsto> v)"
  by (induction g k v rule: set_prop.induct) auto

lemma keys_set_prop: "set (keys (set_prop g k v)) = insert k (set (keys g))"
  by (induction g k v rule: set_prop.induct) (auto simp: keys_def)

lemma fold_set_add:
  "fold (\<lambda>x s. set_add s x) xs acc = acc @ keep_first (filter (\<lambda>x. x \<notin> set acc) xs)"
proof (induction xs arbitrary: acc)
  case Nil
  then show ?case by simp
next
  case (Cons x xs)
  show ?case
  proof (cases "x \<in> set acc")
    case True
    then show ?thesis using Cons by (simp add: set_add_def)
  next
    case False
    have "removeAll x (filter (\<lambda>y. y \<notin> set acc) xs) = filter (\<lambda>y. y \<notin> set (acc @ [x])) xs"
      by (induction xs) auto
    with False show ?thesis using Cons [of "acc @ [x]"] by (simp add: set_add_def)
  qed
qed

lemma uniq_keep_first: "uniq xs = keep_first xs"
  by (simp add: uniq_def fold_set_add)

lemma set_keep_first: "set (keep_first xs) = set xs"
  by (induction xs rule: keep_first.induct) auto




lemma set_prop_twice: "set_prop (set_prop g k v) k v' = set_prop g k v'"
  by (induction g k v rule: set_prop.induct) auto

lemma set_set_prop: "set (set_prop g k v) \<subseteq> insert (k, v) (set g)"
  by (induction g k v rule: set_prop.induct) auto

lemma map_of_None_keys: "map_of g k = None \<longleftrightarrow> k \<notin> set (keys g)"
  by (simp add: keys_def map_of_eq_None_iff)

subsection \<open>Reading through the prototype chain\<close>

lemma get_property_Own: "map_of obj k = Some v \<Longrightarrow> get_property r obj k = Own v"
  by (simp add: get_property_def)

lemma get_property_ordinary:
  "\<not> inherited r k \<Longrightarrow>
     get_property r obj k =
       (case map_of obj k of Some v \<Rightarrow> Own v | None \<Rightarrow> Primitive Undefined)"
  by (simp add: get_property_def inherited_def split: option.splits)

lemma get_property_Undefined:
  "get_property r obj k = Primitive Undefined \<Longrightarrow> map_of obj k = None"
  by (simp add: get_property_def split: option.splits)

lemma get_property_Own_iff: "get_property r obj k = Own v \<longleftrightarrow> map_of obj k = Some v"
  by (auto simp: get_property_def split: option.splits)

lemma proto_builtin: "''__proto__'' \<in> set builtin_names"
  by (simp add: builtin_names_def)

subsection \<open>The merger\<close>

lemma read_deps_eq: "read_deps r obj key = deps_or_empty obj key"
  by (simp add: read_deps_def deps_or_empty_def get_property_def split: option.splits)

lemma read_vias_eq: "read_vias r obj key = vias_or_empty obj key"
  by (simp add: read_vias_def vias_or_empty_def get_property_def split: option.splits)


lemma fold_assign_merged:
  assumes "''__proto__'' \<notin> set ks"
  shows "fold (\<lambda>key merged. assign_merged merged key (f key)) ks m =
     m\<lparr>own_props := fold (\<lambda>key g. set_prop g key (f key)) ks (own_props m)\<rparr>"
  using assms by (induction ks arbitrary: m) (auto simp: assign_merged_def)

lemma map_of_fold_set_prop:
  "map_of (fold (\<lambda>key merged. set_prop merged key (f key)) ks acc) =
     (\<lambda>k. if k \<in> set ks then Some (f k) else map_of acc k)"
  by (induction ks arbitrary: acc) (auto simp: map_of_set_prop fun_eq_iff)


lemma merge_plain:
  assumes "''__proto__'' \<notin> set (keys a) \<union> set (keys b)"
  shows "mergeParsedRequirementsTree r a b =
     \<lparr>own_props = fold (\<lambda>key g. set_prop g key (merged_node r a b key))
                     (uniq (keys a @ keys b)) [],
      prototype = None\<rparr>"
proof -
  from assms have "''__proto__'' \<notin> set (uniq (keys a @ keys b))"
    by (simp add: uniq_keep_first set_keep_first)
  then show ?thesis
    by (simp add: mergeParsedRequirementsTree_def fold_assign_merged)
qed

lemma map_of_merge:
  assumes "''__proto__'' \<notin> set (keys a) \<union> set (keys b)"
  shows "map_of (own_props (mergeParsedRequirementsTree r a b)) key =
     (if key \<in> set (keys a) \<union> set (keys b) then Some (merged_node r a b key) else None)"
  by (simp add: merge_plain [OF assms] map_of_fold_set_prop uniq_keep_first set_keep_first)






subsection \<open>The closure walker\<close>

lemma allDescendantPackages_present:
  "map_of tree parent = Some n \<Longrightarrow>
     allDescendantPackages (Suc fuel) r tree parent = Some (Inl TypeError)"
  by (simp add: get_property_def iterate_or_empty_def)

text \<open>
  C1 (the code departs from the claim): for a start package that is a key of the graph,
  the walk should return the start followed by everything reachable over \<open>deps\<close>, and
  \<open>[start]\<close> when the start has no \<open>deps\<close>. The code iterates over the node object
  itself instead of its \<open>deps\<close>: on the graph of the parser's test, where alembic has an
  empty \<open>deps\<close> list, the call raises a TypeError with any fuel, in any realm.
\<close>

theorem allDescendantPackages_alembic_raises:
  "allDescendantPackages (Suc fuel) r alembic_graph ''alembic'' = Some (Inl TypeError)"
  by (simp add: alembic_graph_def get_property_def iterate_or_empty_def)




subsection \<open>The parser\<close>

lemma deps_or_empty_key: "A \<in> set (deps_or_empty g B) \<Longrightarrow> B \<in> set (keys g)"
  by (cases "map_of g B") (auto simp: deps_or_empty_def keys_def dest: map_of_SomeD intro: rev_image_eqI)

lemma vias_or_empty_key: "B \<in> set (vias_or_empty g A) \<Longrightarrow> A \<in> set (keys g)"
  by (cases "map_of g A") (auto simp: vias_or_empty_def keys_def dest: map_of_SomeD intro: rev_image_eqI)

lemma bidirectional_iff: "bidirectional g \<longleftrightarrow> edges_agree g"
  unfolding bidirectional_def edges_agree_def
  using deps_or_empty_key vias_or_empty_key by blast

lemma edges_agree_nodes:
  "edges_agree g \<longleftrightarrow>
      (\<forall>A B. (\<exists>nb. map_of g B = Some nb \<and> A \<in> set (deps nb)) \<longleftrightarrow>
             (\<exists>na. map_of g A = Some na \<and> B \<in> set (vias na)))"
proof -
  have d: "A \<in> set (deps_or_empty g B) \<longleftrightarrow> (\<exists>nb. map_of g B = Some nb \<and> A \<in> set (deps nb))"
    for A B by (cases "map_of g B") (simp_all add: deps_or_empty_def)
  have v: "B \<in> set (vias_or_empty g A) \<longleftrightarrow> (\<exists>na. map_of g A = Some na \<and> B \<in> set (vias na))"
    for A B by (cases "map_of g A") (simp_all add: vias_or_empty_def)
  show ?thesis by (simp add: edges_agree_def d v)
qed

lemma deps_set_prop: "deps_or_empty (set_prop g k n) = (deps_or_empty g)(k := deps n)"
  by (auto simp: deps_or_empty_def map_of_set_prop fun_eq_iff)

lemma vias_set_prop: "vias_or_empty (set_prop g k n) = (vias_or_empty g)(k := vias n)"
  by (auto simp: vias_or_empty_def map_of_set_prop fun_eq_iff)

lemma deps_of_Some: "map_of g k = Some n \<Longrightarrow> deps_or_empty g k = deps n"
  by (simp add: deps_or_empty_def)

lemma vias_of_Some: "map_of g k = Some n \<Longrightarrow> vias_or_empty g k = vias n"
  by (simp add: vias_or_empty_def)

lemma deps_of_None: "map_of g k = None \<Longrightarrow> deps_or_empty g k = []"
  by (simp add: deps_or_empty_def)

lemma vias_of_None: "map_of g k = None \<Longrightarrow> vias_or_empty g k = []"
  by (simp add: vias_or_empty_def)

lemma deps_ensure_node: "deps_or_empty (ensure_node r g k) = deps_or_empty g"
proof (cases "get_property r g k = Primitive Undefined")
  case True
  then have "deps_or_empty g k = []"
    using get_property_Undefined deps_of_None by blast
  with True show ?thesis
    by (auto simp: ensure_node_def deps_set_prop fun_eq_iff)
next
  case False
  then show ?thesis by (simp add: ensure_node_def)
qed

lemma vias_ensure_node: "vias_or_empty (ensure_node r g k) = vias_or_empty g"
proof (cases "get_property r g k = Primitive Undefined")
  case True
  then have "vias_or_empty g k = []"
    using get_property_Undefined vias_of_None by blast
  with True show ?thesis
    by (auto simp: ensure_node_def vias_set_prop fun_eq_iff)
next
  case False
  then show ?thesis by (simp add: ensure_node_def)
qed

lemma keys_ensure_node: "set (keys (ensure_node r g k)) \<subseteq> insert k (set (keys g))"
  by (auto simp: ensure_node_def keys_set_prop)

lemma keys_ensure_node_sup: "set (keys g) \<subseteq> set (keys (ensure_node r g k))"
  by (auto simp: ensure_node_def keys_set_prop)

lemma push_to_node_Inr:
  assumes "push_to_node r g k f = Inr g'"
  shows "\<exists>n. map_of g k = Some n \<and> g' = set_prop g k (f n)"
  using assms
  by (auto simp: push_to_node_def get_property_Own_iff split: property.splits)

lemma push_ensure:
  assumes "push_to_node r (ensure_node r g k) k f = Inr g'"
  shows "\<exists>n. g' = set_prop (ensure_node r g k) k (f n) \<and>
           deps n = deps_or_empty g k \<and> vias n = vias_or_empty g k \<and>
           set (keys g') = insert k (set (keys g))"
proof -
  from push_to_node_Inr [OF assms] obtain n
    where n: "map_of (ensure_node r g k) k = Some n"
      and g': "g' = set_prop (ensure_node r g k) k (f n)"
    by blast
  from n have d: "deps n = deps_or_empty g k" and v: "vias n = vias_or_empty g k"
    using deps_of_Some [OF n] vias_of_Some [OF n]
    by (simp_all add: deps_ensure_node vias_ensure_node)
  from n have "k \<in> set (keys (ensure_node r g k))"
    using map_of_None_keys [of "ensure_node r g k" k] by simp
  then have "set (keys g') = insert k (set (keys g))"
    using keys_ensure_node [of r g k] keys_ensure_node_sup [of g r k]
    by (auto simp: g' keys_set_prop)
  with g' d v show ?thesis by blast
qed

lemma push_dep:
  assumes "push_to_node r (ensure_node r g k) k (\<lambda>n. n\<lparr>deps := deps n @ [x]\<rparr>) = Inr g'"
  shows "deps_or_empty g' = (deps_or_empty g)(k := deps_or_empty g k @ [x])"
    and "vias_or_empty g' = vias_or_empty g"
    and "set (keys g') = insert k (set (keys g))"
proof -
  from push_ensure [OF assms] obtain n
    where g': "g' = set_prop (ensure_node r g k) k (n\<lparr>deps := deps n @ [x]\<rparr>)"
      and d: "deps n = deps_or_empty g k" and v: "vias n = vias_or_empty g k"
      and k: "set (keys g') = insert k (set (keys g))"
    by blast
  show "deps_or_empty g' = (deps_or_empty g)(k := deps_or_empty g k @ [x])"
    by (simp add: g' deps_set_prop deps_ensure_node d)
  show "vias_or_empty g' = vias_or_empty g"
    by (auto simp: g' vias_set_prop vias_ensure_node v fun_eq_iff)
  show "set (keys g') = insert k (set (keys g))"
    by (rule k)
qed

lemma push_via:
  assumes "push_to_node r (ensure_node r g k) k (\<lambda>n. n\<lparr>vias := vias n @ [x]\<rparr>) = Inr g'"
  shows "vias_or_empty g' = (vias_or_empty g)(k := vias_or_empty g k @ [x])"
    and "deps_or_empty g' = deps_or_empty g"
    and "set (keys g') = insert k (set (keys g))"
proof -
  from push_ensure [OF assms] obtain n
    where g': "g' = set_prop (ensure_node r g k) k (n\<lparr>vias := vias n @ [x]\<rparr>)"
      and d: "deps n = deps_or_empty g k" and v: "vias n = vias_or_empty g k"
      and k: "set (keys g') = insert k (set (keys g))"
    by blast
  show "vias_or_empty g' = (vias_or_empty g)(k := vias_or_empty g k @ [x])"
    by (simp add: g' vias_set_prop vias_ensure_node v)
  show "deps_or_empty g' = deps_or_empty g"
    by (auto simp: g' deps_set_prop deps_ensure_node d fun_eq_iff)
  show "set (keys g') = insert k (set (keys g))"
    by (rule k)
qed

lemma push_ensure_ordinary:
  assumes "\<not> inherited r k"
  shows "\<exists>g'. push_to_node r (ensure_node r g k) k f = Inr g'"
  using assms
  by (cases "map_of g k")
    (simp_all add: push_to_node_def ensure_node_def get_property_ordinary map_of_set_prop)

lemma assign_version_Inr:
  assumes "assign_version r g k ver = Inr (g', r')"
  shows "deps_or_empty g' = deps_or_empty g \<and> vias_or_empty g' = vias_or_empty g \<and>
         set (keys g') = set (keys g)"
proof (cases "get_property r g k")
  case (Own n)
  then have n: "map_of g k = Some n" by (simp add: get_property_Own_iff)
  then have k: "k \<in> set (keys g)"
    using map_of_None_keys [of g k] by simp
  from Own assms have g': "g' = set_prop g k (n\<lparr>version := Str ver\<rparr>)"
    by (simp add: assign_version_def)
  show ?thesis
    using deps_of_Some [OF n] vias_of_Some [OF n] k
    by (auto simp: g' deps_set_prop vias_set_prop keys_set_prop fun_eq_iff)
next
  case (Builtin b)
  with assms show ?thesis by (auto simp: assign_version_def)
next
  case (Primitive v)
  with assms show ?thesis by (simp add: assign_version_def)
qed

lemma edges_agree_via:
  assumes "edges_agree g"
    and "deps_or_empty g' = (deps_or_empty g)(v := deps_or_empty g v @ [c])"
    and "vias_or_empty g' = (vias_or_empty g)(c := vias_or_empty g c @ [v])"
  shows "edges_agree g'"
  using assms by (auto simp: edges_agree_def)

lemma edges_agree_same:
  "edges_agree g \<Longrightarrow> deps_or_empty g' = deps_or_empty g \<Longrightarrow> vias_or_empty g' = vias_or_empty g
     \<Longrightarrow> edges_agree g'"
  by (simp add: edges_agree_def)

text \<open>A pinned line, in general and for a name that inherits nothing.\<close>

lemma parse_line_dep_Inr:
  assumes "depMatch line = Some (g1, g2)"
    and "parse_line (g, cur, r) line = Inr (g', cur', r')"
  shows "deps_or_empty g' = deps_or_empty g \<and> vias_or_empty g' = vias_or_empty g"
proof (cases "trim g1 \<noteq> [] \<and> get_property r g (trim g1) = Primitive Undefined")
  case True
  then have n: "map_of g (trim g1) = None"
    using get_property_Undefined by blast
  from True assms have "g' = set_prop g (trim g1) \<lparr>version = Str (trim g2), vias = [], deps = []\<rparr>"
    by (simp add: parse_line_def Let_def)
  then show ?thesis
    using deps_of_None [OF n] vias_of_None [OF n]
    by (auto simp: deps_set_prop vias_set_prop fun_eq_iff)
next
  case False
  show ?thesis
  proof (cases "trim g2 \<noteq> []")
    case True
    with False assms obtain r'' where "assign_version r g (trim g1) (trim g2) = Inr (g', r'')"
      by (auto simp: parse_line_def Let_def split: sum.splits)
    then show ?thesis using assign_version_Inr by blast
  next
    case f: False
    with False assms have "g' = g"
      by (auto simp: parse_line_def Let_def)
    then show ?thesis by simp
  qed
qed

lemma parse_line_dep:
  assumes "depMatch line = Some (g1, g2)" and "trim g1 \<noteq> []" and "\<not> inherited r (trim g1)"
  shows "\<exists>g'. parse_line (g, cur, r) line = Inr (g', Some (trim g1), r) \<and>
           deps_or_empty g' = deps_or_empty g \<and> vias_or_empty g' = vias_or_empty g \<and>
           set (keys g') = insert (trim g1) (set (keys g))"
proof (cases "map_of g (trim g1)")
  case None
  then have "deps_or_empty g (trim g1) = []" and "vias_or_empty g (trim g1) = []"
    by (simp_all add: deps_or_empty_def vias_or_empty_def)
  with None assms show ?thesis
    by (auto simp: parse_line_def Let_def deps_set_prop vias_set_prop keys_set_prop
        get_property_ordinary fun_eq_iff)
next
  case (Some n)
  then have "deps_or_empty g (trim g1) = deps n" and "vias_or_empty g (trim g1) = vias n"
    by (simp_all add: deps_or_empty_def vias_or_empty_def)
  moreover from Some have "trim g1 \<in> set (keys g)"
    using map_of_None_keys [of g "trim g1"] by simp
  ultimately show ?thesis
    using Some assms
    by (auto simp: parse_line_def Let_def assign_version_def deps_set_prop vias_set_prop
        keys_set_prop get_property_ordinary fun_eq_iff)
qed

text \<open>A via-annotation line under a current package, in general and for ordinary names.\<close>

lemma parse_line_via_Inr:
  assumes "depMatch line = None" and "via_name line \<noteq> []" and "c \<noteq> []"
    and "parse_line (g, Some c, r) line = Inr (g', cur', r')"
  shows "cur' = Some c \<and> r' = r \<and>
         deps_or_empty g' =
           (deps_or_empty g)(via_name line := deps_or_empty g (via_name line) @ [c]) \<and>
         vias_or_empty g' = (vias_or_empty g)(c := vias_or_empty g c @ [via_name line]) \<and>
         set (keys g') = insert c (insert (via_name line) (set (keys g)))"
proof -
  let ?v = "via_name line"
  from assms obtain d1 where
    u1: "push_to_node r (ensure_node r g ?v) ?v (\<lambda>n. n\<lparr>deps := deps n @ [c]\<rparr>) = Inr d1"
    by (auto simp: parse_line_def Let_def split: sum.splits)
  with assms have
    u2: "push_to_node r (ensure_node r d1 c) c (\<lambda>n. n\<lparr>vias := vias n @ [?v]\<rparr>) = Inr g'"
    and c: "cur' = Some c" and r: "r' = r"
    by (auto simp: parse_line_def Let_def split: sum.splits)
  from push_dep [OF u1] push_via [OF u2] c r show ?thesis
    by simp
qed

lemma parse_line_via:
  assumes "depMatch line = None" and "via_name line \<noteq> []" and "c \<noteq> []"
    and "\<not> inherited r (via_name line)" and "\<not> inherited r c"
  shows "\<exists>g'. parse_line (g, Some c, r) line = Inr (g', Some c, r)"
proof -
  let ?v = "via_name line"
  obtain d1 where
    u1: "push_to_node r (ensure_node r g ?v) ?v (\<lambda>n. n\<lparr>deps := deps n @ [c]\<rparr>) = Inr d1"
    using push_ensure_ordinary [OF assms(4)] by blast
  obtain d2 where
    u2: "push_to_node r (ensure_node r d1 c) c (\<lambda>n. n\<lparr>vias := vias n @ [?v]\<rparr>) = Inr d2"
    using push_ensure_ordinary [OF assms(5)] by blast
  from assms u1 u2 show ?thesis
    by (simp add: parse_line_def Let_def)
qed

lemma parse_line_other:
  assumes "depMatch line = None" and "\<not> (\<exists>c. cur = Some c \<and> c \<noteq> [] \<and> via_name line \<noteq> [])"
  shows "parse_line (g, cur, r) line = Inr (g, cur, r)"
  using assms by (auto simp: parse_line_def Let_def split: option.splits)

lemma parse_line_keeps:
  assumes "parse_line (g, cur, r) line = Inr (g', cur', r')" and "edges_agree g"
  shows "edges_agree g'"
proof (cases "depMatch line")
  case (Some m)
  obtain g1 g2 where m: "m = (g1, g2)" by (cases m)
  from parse_line_dep_Inr [OF Some [unfolded m] assms(1)] assms(2) show ?thesis
    using edges_agree_same by blast
next
  case None
  show ?thesis
  proof (cases "\<exists>c. cur = Some c \<and> c \<noteq> [] \<and> via_name line \<noteq> []")
    case True
    then obtain c where c: "cur = Some c" "c \<noteq> []" "via_name line \<noteq> []" by blast
    from parse_line_via_Inr [OF None c(3) c(2) assms(1) [unfolded c(1)]] assms(2)
    show ?thesis using edges_agree_via by blast
  next
    case False
    from parse_line_other [OF None False, of g r] assms show ?thesis by simp
  qed
qed

lemma parse_lines_keeps:
  "parse_lines (g, cur, r) ls = Inr (g', cur', r') \<Longrightarrow> edges_agree g \<Longrightarrow> edges_agree g'"
proof (induction ls arbitrary: g cur r)
  case Nil
  then show ?case by simp
next
  case (Cons l ls)
  from Cons.prems(1) obtain g1 cur1 r1 where 1: "parse_line (g, cur, r) l = Inr (g1, cur1, r1)"
    and 2: "parse_lines (g1, cur1, r1) ls = Inr (g', cur', r')"
    by (auto split: sum.splits)
  from parse_line_keeps [OF 1 Cons.prems(2)] Cons.IH [OF 2] show ?case by simp
qed

text \<open>The parser makes no node under a name that \<open>Object.prototype\<close> has.\<close>

lemma get_property_Undefined_name:
  "get_property r obj k = Primitive Undefined \<Longrightarrow> k \<notin> set builtin_names"
  by (simp add: get_property_def split: option.splits if_splits)

lemma ensure_node_plain:
  assumes "set (keys g) \<inter> set builtin_names = {}"
  shows "set (keys (ensure_node r g k)) \<inter> set builtin_names = {}"
proof (cases "get_property r g k = Primitive Undefined")
  case True
  with assms get_property_Undefined_name [OF True] show ?thesis
    by (simp add: ensure_node_def keys_set_prop)
next
  case False
  with assms show ?thesis by (simp add: ensure_node_def)
qed

lemma push_to_node_keys:
  assumes "push_to_node r g k f = Inr g'"
  shows "set (keys g') = set (keys g)"
proof -
  from push_to_node_Inr [OF assms] obtain n
    where n: "map_of g k = Some n" and g': "g' = set_prop g k (f n)"
    by blast
  from n have "k \<in> set (keys g)"
    using map_of_None_keys [of g k] by simp
  then show ?thesis
    by (auto simp: g' keys_set_prop)
qed

lemma parse_line_plain:
  assumes "parse_line (g, cur, r) line = Inr (g', cur', r')"
    and "set (keys g) \<inter> set builtin_names = {}"
  shows "set (keys g') \<inter> set builtin_names = {}"
proof (cases "depMatch line")
  case (Some m)
  obtain g1 g2 where m: "depMatch line = Some (g1, g2)"
    using Some by (cases m) simp
  show ?thesis
  proof (cases "trim g1 \<noteq> [] \<and> get_property r g (trim g1) = Primitive Undefined")
    case True
    then have "trim g1 \<notin> set builtin_names"
      using get_property_Undefined_name by blast
    moreover from True m assms(1)
    have "g' = set_prop g (trim g1) \<lparr>version = Str (trim g2), vias = [], deps = []\<rparr>"
      by (simp add: parse_line_def Let_def)
    ultimately show ?thesis
      using assms(2) by (simp add: keys_set_prop)
  next
    case False
    show ?thesis
    proof (cases "trim g2 \<noteq> []")
      case True
      with False m assms(1) obtain r''
        where "assign_version r g (trim g1) (trim g2) = Inr (g', r'')"
        by (auto simp: parse_line_def Let_def split: sum.splits)
      with assms(2) show ?thesis
        using assign_version_Inr by blast
    next
      case f: False
      with False m assms(1) have "g' = g"
        by (auto simp: parse_line_def Let_def)
      with assms(2) show ?thesis by simp
    qed
  qed
next
  case None
  show ?thesis
  proof (cases "\<exists>c. cur = Some c \<and> c \<noteq> [] \<and> via_name line \<noteq> []")
    case True
    then obtain c where c: "cur = Some c" "c \<noteq> []" "via_name line \<noteq> []" by blast
    let ?v = "via_name line"
    from None c assms(1) obtain d1 where
      u1: "push_to_node r (ensure_node r g ?v) ?v (\<lambda>n. n\<lparr>deps := deps n @ [c]\<rparr>) = Inr d1"
      by (auto simp: parse_line_def Let_def split: sum.splits)
    with None c assms(1) have
      u2: "push_to_node r (ensure_node r d1 c) c (\<lambda>n. n\<lparr>vias := vias n @ [?v]\<rparr>) = Inr g'"
      by (auto simp: parse_line_def Let_def split: sum.splits)
    have "set (keys d1) \<inter> set builtin_names = {}"
      using push_to_node_keys [OF u1] ensure_node_plain [OF assms(2), of r ?v] by simp
    then show ?thesis
      using push_to_node_keys [OF u2] ensure_node_plain [of d1 r c] by simp
  next
    case False
    from parse_line_other [OF None False, of g r] assms show ?thesis by simp
  qed
qed

lemma parse_lines_plain:
  "parse_lines (g, cur, r) ls = Inr (g', cur', r') \<Longrightarrow>
     set (keys g) \<inter> set builtin_names = {} \<Longrightarrow> set (keys g') \<inter> set builtin_names = {}"
proof (induction ls arbitrary: g cur r)
  case Nil
  then show ?case by simp
next
  case (Cons l ls)
  from Cons.prems(1) obtain g1 cur1 r1 where 1: "parse_line (g, cur, r) l = Inr (g1, cur1, r1)"
    and 2: "parse_lines (g1, cur1, r1) ls = Inr (g', cur', r')"
    by (auto split: sum.splits)
  from parse_line_plain [OF 1 Cons.prems(2)] Cons.IH [OF 2] show ?case by simp
qed

lemma parse_plain:
  assumes "parsePinnedRequirementsTree r requirements = Inr (g, r')"
  shows "''__proto__'' \<notin> set (keys g)"
proof -
  from assms obtain cur' where
    "parse_lines ([], None, r) (requirement_lines requirements) = Inr (g, cur', r')"
    by (auto simp: parsePinnedRequirementsTree_def split: sum.splits)
  from parse_lines_plain [OF this] have "set (keys g) \<inter> set builtin_names = {}"
    by (simp add: keys_def)
  with proto_builtin show ?thesis by blast
qed

lemma parse_bidirectional:
  assumes "parsePinnedRequirementsTree r requirements = Inr (g, r')"
  shows "bidirectional g"
proof -
  have e: "edges_agree []"
    by (simp add: edges_agree_def deps_or_empty_def vias_or_empty_def)
  from assms obtain cur' where
    "parse_lines ([], None, r) (requirement_lines requirements) = Inr (g, cur', r')"
    by (auto simp: parsePinnedRequirementsTree_def split: sum.splits)
  from parse_lines_keeps [OF this e] show ?thesis
    by (simp add: bidirectional_iff)
qed

text \<open>The lines that the loop of the parser meets.\<close>

lemma is_space_lower_char: "is_space (lower_char c) = is_space c"
proof -
  have "of_char (char_of (of_char c + 32 :: nat)) = (of_char c + 32 :: nat)"
    if "(of_char c :: nat) \<le> 222"
    using that by (simp add: of_char_of)
  then show ?thesis
    by (auto simp: is_space_def lower_char_def Let_def)
qed

lemma trim_eq_Nil_iff: "trim s = [] \<longleftrightarrow> (\<forall>c \<in> set s. is_space c)"
proof
  assume "trim s = []"
  then have a: "\<forall>c \<in> set (dropWhile is_space s). is_space c"
    by (simp add: trim_def dropWhile_eq_Nil_conv)
  have "dropWhile is_space s = []"
  proof (rule ccontr)
    assume n: "dropWhile is_space s \<noteq> []"
    then have "\<not> is_space (hd (dropWhile is_space s))"
      by (rule hd_dropWhile)
    with a n show False by (meson hd_in_set)
  qed
  then show "\<forall>c \<in> set s. is_space c"
    by (simp add: dropWhile_eq_Nil_conv)
next
  assume "\<forall>c \<in> set s. is_space c"
  then have "dropWhile is_space s = []"
    by (simp add: dropWhile_eq_Nil_conv)
  then show "trim s = []"
    by (simp only: trim_def rev.simps dropWhile.simps)
qed

lemma hd_trim: assumes "trim s \<noteq> []" shows "\<not> is_space (hd (trim s))"
proof -
  let ?ys = "dropWhile is_space s"
  have ys: "?ys = trim s @ rev (takeWhile is_space (rev ?ys))"
    using takeWhile_dropWhile_id [of is_space "rev ?ys"]
    by (metis rev_append rev_rev_ident trim_def)
  from assms have "trim s @ rev (takeWhile is_space (rev ?ys)) \<noteq> []" by simp
  with ys have "?ys \<noteq> []" by metis
  then have "\<not> is_space (hd ?ys)" by (rule hd_dropWhile)
  moreover from ys assms have "hd ?ys = hd (trim s)"
    by (metis hd_append2)
  ultimately show ?thesis by simp
qed

lemma requirement_lines_good: "l \<in> set (requirement_lines text) \<Longrightarrow> good_line l"
proof -
  assume "l \<in> set (requirement_lines text)"
  then obtain x where l: "l = toLowerCase (trim x)" and n: "l \<noteq> []"
    by (auto simp: requirement_lines_def)
  then have t: "trim x \<noteq> []" by (auto simp: toLowerCase_def)
  then have "hd l = lower_char (hd (trim x))"
    by (simp add: l toLowerCase_def hd_map)
  with hd_trim [OF t] n show ?thesis
    by (simp add: good_line_def is_space_lower_char)
qed

lemma match_dep_at_Some:
  "match_dep_at p n = Some (g1, g2) \<Longrightarrow> \<exists>i<n. g1 = take (Suc i) p"
  by (induction n) (auto split: if_splits simp: less_Suc_eq)

lemma depMatch_name:
  assumes "good_line l" and "depMatch l = Some (g1, g2)"
  shows "trim g1 \<noteq> []"
proof -
  let ?p = "takeWhile (\<lambda>c. \<not> is_line_terminator c) l"
  from assms(2) obtain i where i: "i < length ?p" and g1: "g1 = take (Suc i) ?p"
    using match_dep_at_Some [of ?p "length ?p" g1 g2] by (auto simp: depMatch_def Let_def)
  from i have "?p \<noteq> []" by auto
  then have "hd ?p = hd l"
    by (cases l) (auto split: if_splits)
  with g1 \<open>?p \<noteq> []\<close> have "hd l \<in> set g1"
    by (cases ?p) auto
  with assms(1) show ?thesis
    by (auto simp: trim_eq_Nil_iff good_line_def)
qed

text \<open>The loop against the edges of the text, for names that inherit nothing.\<close>

lemma spec_packages_dep:
  assumes "depMatch l = Some (g1, g2)"
  shows "spec_edges cur (l # ls) = spec_edges (Some (trim g1)) ls"
    and "set (spec_packages cur (l # ls)) = insert (trim g1) (set (spec_packages (Some (trim g1)) ls))"
  using assms by (auto simp: spec_packages_def spec_pinned_def map_filter_simps)

lemma spec_packages_via:
  assumes "depMatch l = None" and "via_name l \<noteq> []" and "c \<noteq> []"
  shows "spec_edges (Some c) (l # ls) = (c, via_name l) # spec_edges (Some c) ls"
    and "set (spec_packages (Some c) (l # ls)) =
           insert c (insert (via_name l) (set (spec_packages (Some c) ls)))"
  using assms by (auto simp: spec_packages_def spec_pinned_def map_filter_simps)

lemma spec_packages_other:
  assumes "depMatch l = None" and "\<not> (\<exists>c. cur = Some c \<and> c \<noteq> [] \<and> via_name l \<noteq> [])"
  shows "spec_edges cur (l # ls) = spec_edges cur ls"
    and "set (spec_packages cur (l # ls)) = set (spec_packages cur ls)"
  using assms by (auto simp: spec_packages_def spec_pinned_def map_filter_simps split: option.splits)

lemma parse_lines_spec:
  assumes "\<forall>l \<in> set ls. good_line l"
    and "\<forall>k \<in> set (spec_packages cur ls). \<not> inherited r k"
  shows "\<exists>g' cur'. parse_lines (g, cur, r) ls = Inr (g', cur', r) \<and>
           set (keys g') = set (keys g) \<union> set (spec_packages cur ls) \<and>
           (\<forall>B. deps_or_empty g' B = deps_or_empty g B @ edges_into B (spec_edges cur ls)) \<and>
           (\<forall>A. vias_or_empty g' A = vias_or_empty g A @ edges_from A (spec_edges cur ls))"
  using assms
proof (induction ls arbitrary: g cur)
  case Nil
  then show ?case
    by (simp add: spec_packages_def spec_pinned_def map_filter_simps edges_into_def edges_from_def)
next
  case (Cons l ls)
  from Cons.prems(1) have good: "good_line l" and goods: "\<forall>l \<in> set ls. good_line l"
    by simp_all
  show ?case
  proof (cases "depMatch l")
    case (Some m)
    obtain g1 g2 where m: "depMatch l = Some (g1, g2)"
      using Some by (cases m) simp
    have n: "trim g1 \<noteq> []"
      using depMatch_name [OF good m] .
    from Cons.prems(2) have o: "\<not> inherited r (trim g1)"
      and os: "\<forall>k \<in> set (spec_packages (Some (trim g1)) ls). \<not> inherited r k"
      by (simp_all add: spec_packages_dep(2) [OF m])
    from parse_line_dep [OF m n o, of g cur] obtain d where
      1: "parse_line (g, cur, r) l = Inr (d, Some (trim g1), r)"
      and dd: "deps_or_empty d = deps_or_empty g" and vd: "vias_or_empty d = vias_or_empty g"
      and kd: "set (keys d) = insert (trim g1) (set (keys g))"
      by blast
    from Cons.IH [OF goods os, of d] obtain g' cur' where
      2: "parse_lines (d, Some (trim g1), r) ls = Inr (g', cur', r)"
      and k: "set (keys g') = set (keys d) \<union> set (spec_packages (Some (trim g1)) ls)"
      and dg: "\<forall>B. deps_or_empty g' B =
                 deps_or_empty d B @ edges_into B (spec_edges (Some (trim g1)) ls)"
      and vg: "\<forall>A. vias_or_empty g' A =
                 vias_or_empty d A @ edges_from A (spec_edges (Some (trim g1)) ls)"
      by blast
    have "parse_lines (g, cur, r) (l # ls) = Inr (g', cur', r)"
      by (simp add: 1 2)
    moreover have "set (keys g') = set (keys g) \<union> set (spec_packages cur (l # ls))"
      by (simp add: k kd spec_packages_dep(2) [OF m])
    ultimately show ?thesis
      using dg vg by (simp add: spec_packages_dep(1) [OF m] dd vd del: spec_edges.simps)
  next
    case None
    show ?thesis
    proof (cases "\<exists>c. cur = Some c \<and> c \<noteq> [] \<and> via_name l \<noteq> []")
      case True
      then obtain c where cur: "cur = Some c" and c: "c \<noteq> []" and v: "via_name l \<noteq> []"
        by blast
      from Cons.prems(2) have oc: "\<not> inherited r c" and ov: "\<not> inherited r (via_name l)"
        and os: "\<forall>k \<in> set (spec_packages (Some c) ls). \<not> inherited r k"
        by (simp_all add: cur spec_packages_via(2) [OF None v c])
      from parse_line_via [OF None v c ov oc, of g] obtain d where
        1: "parse_line (g, Some c, r) l = Inr (d, Some c, r)"
        by blast
      from parse_line_via_Inr [OF None v c 1] have
        dd: "deps_or_empty d = (deps_or_empty g)(via_name l := deps_or_empty g (via_name l) @ [c])"
        and vd: "vias_or_empty d = (vias_or_empty g)(c := vias_or_empty g c @ [via_name l])"
        and kd: "set (keys d) = insert c (insert (via_name l) (set (keys g)))"
        by simp_all
      from Cons.IH [OF goods os, of d] obtain g' cur' where
        2: "parse_lines (d, Some c, r) ls = Inr (g', cur', r)"
        and k: "set (keys g') = set (keys d) \<union> set (spec_packages (Some c) ls)"
        and dg: "\<forall>B. deps_or_empty g' B = deps_or_empty d B @ edges_into B (spec_edges (Some c) ls)"
        and vg: "\<forall>A. vias_or_empty g' A = vias_or_empty d A @ edges_from A (spec_edges (Some c) ls)"
        by blast
      have "parse_lines (g, cur, r) (l # ls) = Inr (g', cur', r)"
        by (simp add: cur 1 2)
      moreover have "set (keys g') = set (keys g) \<union> set (spec_packages cur (l # ls))"
        by (auto simp: k kd cur spec_packages_via(2) [OF None v c])
      moreover have "\<forall>B. deps_or_empty g' B =
          deps_or_empty g B @ edges_into B (spec_edges cur (l # ls))"
        by (simp add: dg dd cur spec_packages_via(1) [OF None v c] edges_into_def
            del: spec_edges.simps)
      moreover have "\<forall>A. vias_or_empty g' A =
          vias_or_empty g A @ edges_from A (spec_edges cur (l # ls))"
        by (simp add: vg vd cur spec_packages_via(1) [OF None v c] edges_from_def
            del: spec_edges.simps)
      ultimately show ?thesis by blast
    next
      case False
      from Cons.prems(2) have os: "\<forall>k \<in> set (spec_packages cur ls). \<not> inherited r k"
        by (simp add: spec_packages_other(2) [OF None False])
      from Cons.IH [OF goods os, of g] show ?thesis
        by (simp add: parse_line_other [OF None False] spec_packages_other [OF None False]
            del: spec_edges.simps)
    qed
  qed
qed

lemma parse_spec:
  assumes "\<forall>k \<in> set (spec_packages None (requirement_lines requirements)). \<not> inherited r k"
  shows "\<exists>g. parsePinnedRequirementsTree r requirements = Inr (g, r) \<and>
           set (keys g) = set (spec_packages None (requirement_lines requirements)) \<and>
           (\<forall>B. deps_or_empty g B = spec_deps (requirement_lines requirements) B) \<and>
           (\<forall>A. vias_or_empty g A = spec_vias (requirement_lines requirements) A)"
proof -
  have good: "\<forall>l \<in> set (requirement_lines requirements). good_line l"
    using requirement_lines_good by blast
  from parse_lines_spec [OF good assms, of "[]"] obtain g cur' where
    "parse_lines ([], None, r) (requirement_lines requirements) = Inr (g, cur', r)"
    and "set (keys g) = set (keys ([] :: graph)) \<union>
           set (spec_packages None (requirement_lines requirements))"
    and "\<forall>B. deps_or_empty g B =
           deps_or_empty [] B @ edges_into B (spec_edges None (requirement_lines requirements))"
    and "\<forall>A. vias_or_empty g A =
           vias_or_empty [] A @ edges_from A (spec_edges None (requirement_lines requirements))"
    by blast
  then show ?thesis
    by (simp add: parsePinnedRequirementsTree_def spec_deps_def spec_vias_def edges_into_def
        edges_from_def keys_def deps_or_empty_def vias_or_empty_def)
qed







lemma deps_merge:
  assumes "''__proto__'' \<notin> set (keys a) \<union> set (keys b)"
  shows "deps_or_empty (own_props (mergeParsedRequirementsTree r a b)) k =
     keep_first (deps_or_empty a k @ deps_or_empty b k)"
proof (cases "k \<in> set (keys a) \<union> set (keys b)")
  case True
  then show ?thesis
    by (simp add: deps_or_empty_def [of "own_props (mergeParsedRequirementsTree r a b)"]
        map_of_merge [OF assms] merged_node_def uniq_keep_first read_deps_eq)
next
  case False
  then have "deps_or_empty a k = []" and "deps_or_empty b k = []"
    by (simp_all add: deps_or_empty_def map_of_None_keys [symmetric])
  with False show ?thesis
    by (simp add: deps_or_empty_def [of "own_props (mergeParsedRequirementsTree r a b)"]
        map_of_merge [OF assms])
qed

lemma vias_merge:
  assumes "''__proto__'' \<notin> set (keys a) \<union> set (keys b)"
  shows "vias_or_empty (own_props (mergeParsedRequirementsTree r a b)) k =
     keep_first (vias_or_empty a k @ vias_or_empty b k)"
proof (cases "k \<in> set (keys a) \<union> set (keys b)")
  case True
  then show ?thesis
    by (simp add: vias_or_empty_def [of "own_props (mergeParsedRequirementsTree r a b)"]
        map_of_merge [OF assms] merged_node_def uniq_keep_first read_vias_eq)
next
  case False
  then have "vias_or_empty a k = []" and "vias_or_empty b k = []"
    by (simp_all add: vias_or_empty_def map_of_None_keys [symmetric])
  with False show ?thesis
    by (simp add: vias_or_empty_def [of "own_props (mergeParsedRequirementsTree r a b)"]
        map_of_merge [OF assms])
qed

lemma merge_bidirectional:
  assumes "''__proto__'' \<notin> set (keys a) \<union> set (keys b)"
    and "bidirectional a" and "bidirectional b"
  shows "bidirectional (own_props (mergeParsedRequirementsTree r a b))"
  using assms(2,3)
  by (simp add: bidirectional_iff edges_agree_def deps_merge [OF assms(1)]
      vias_merge [OF assms(1)] set_keep_first)

text \<open>
  C7 (as amended): every graph that the parser returns, on any text and in any realm,
  satisfies the bidirectional-edge invariant and has no key named \<open>__proto__\<close>, and the
  parser does return a graph when the package names of the text inherit nothing from
  \<open>Object.prototype\<close>. The merge of two graphs that satisfy the invariant and have no
  key named \<open>__proto__\<close> is a plain object that satisfies it. The invariant is the check
  \<^const>\<open>bidirectional\<close>, which says exactly that for all packages \<open>A\<close> and \<open>B\<close>, \<open>B\<close>
  is a key whose node has \<open>A\<close> in its \<open>deps\<close> if and only if \<open>A\<close> is a key whose node
  has \<open>B\<close> in its \<open>vias\<close>.
\<close>

theorem bidirectional_parse_merge:
  "(parsePinnedRequirementsTree r requirements = Inr (g, r') \<longrightarrow>
      bidirectional g \<and> ''__proto__'' \<notin> set (keys g)) \<and>
   ((\<forall>k \<in> set (spec_packages None (requirement_lines requirements)). \<not> inherited r k) \<longrightarrow>
      (\<exists>g. parsePinnedRequirementsTree r requirements = Inr (g, r))) \<and>
   (''__proto__'' \<notin> set (keys a) \<union> set (keys b) \<and> bidirectional a \<and> bidirectional b \<longrightarrow>
      prototype (mergeParsedRequirementsTree r a b) = None \<and>
      bidirectional (own_props (mergeParsedRequirementsTree r a b))) \<and>
   (bidirectional h \<longleftrightarrow>
      (\<forall>A B. (\<exists>nb. map_of h B = Some nb \<and> A \<in> set (deps nb)) \<longleftrightarrow>
             (\<exists>na. map_of h A = Some na \<and> B \<in> set (vias na))))"
proof -
  have 1: "parsePinnedRequirementsTree r requirements = Inr (g, r') \<longrightarrow>
      bidirectional g \<and> ''__proto__'' \<notin> set (keys g)"
    using parse_bidirectional parse_plain by blast
  have 2: "(\<forall>k \<in> set (spec_packages None (requirement_lines requirements)). \<not> inherited r k) \<longrightarrow>
      (\<exists>g. parsePinnedRequirementsTree r requirements = Inr (g, r))"
    using parse_spec [of requirements r] by blast
  have 3: "''__proto__'' \<notin> set (keys a) \<union> set (keys b) \<and> bidirectional a \<and> bidirectional b \<longrightarrow>
      prototype (mergeParsedRequirementsTree r a b) = None \<and>
      bidirectional (own_props (mergeParsedRequirementsTree r a b))"
    using merge_bidirectional [of a b r] merge_plain [of a b r] by simp
  have 4: "bidirectional h \<longleftrightarrow>
      (\<forall>A B. (\<exists>nb. map_of h B = Some nb \<and> A \<in> set (deps nb)) \<longleftrightarrow>
             (\<exists>na. map_of h A = Some na \<and> B \<in> set (vias na)))"
    using edges_agree_nodes [of h] by (simp add: bidirectional_iff)
  from 1 2 3 4 show ?thesis by blast
qed

theorem bidirectional_parse_merge_witness:
  "parsePinnedRequirementsTree initial_realm ''alembic==1.13.1\<newline>    # via flask-migrate'' =
     Inr (alembic_graph, initial_realm) \<and>
   list_all (\<lambda>k. \<not> inherited initial_realm k)
     (spec_packages None (requirement_lines ''alembic==1.13.1\<newline>    # via flask-migrate'')) \<and>
   (\<exists>g. parsePinnedRequirementsTree initial_realm
          ''alembic==1.13.1\<newline>    # via flask-migrate'' = Inr (g, initial_realm)) \<and>
   ''__proto__'' \<notin> set (keys alembic_graph) \<union> set (keys attrs_graph) \<and>
   bidirectional alembic_graph \<and> bidirectional attrs_graph \<and>
   prototype (mergeParsedRequirementsTree initial_realm alembic_graph attrs_graph) = None \<and>
   bidirectional (own_props (mergeParsedRequirementsTree initial_realm alembic_graph attrs_graph))"
proof -
  let ?t = "''alembic==1.13.1\<newline>    # via flask-migrate''"
  have s: "spec_packages None (requirement_lines ?t) = [''alembic'', ''alembic'', ''flask-migrate'']"
    by code_simp
  have o: "\<forall>k \<in> set (spec_packages None (requirement_lines ?t)). \<not> inherited initial_realm k"
    by (simp add: s inherited_def builtin_names_def pollution_def)
  have p: "''__proto__'' \<notin> set (keys alembic_graph) \<union> set (keys attrs_graph)"
    by (simp add: keys_def alembic_graph_def attrs_graph_def)
  have t: "parsePinnedRequirementsTree initial_realm ?t = Inr (alembic_graph, initial_realm)"
    by code_simp
  from bidirectional_parse_merge [of initial_realm ?t alembic_graph initial_realm
      alembic_graph attrs_graph] t
  have a: "bidirectional alembic_graph"
    by blast
  have b: "bidirectional attrs_graph"
    by code_simp
  from bidirectional_parse_merge [of initial_realm ?t alembic_graph initial_realm
      alembic_graph attrs_graph] p a b
  have m: "prototype (mergeParsedRequirementsTree initial_realm alembic_graph attrs_graph) = None \<and>
    bidirectional (own_props (mergeParsedRequirementsTree initial_realm alembic_graph attrs_graph))"
    by blast
  from bidirectional_parse_merge [of initial_realm ?t alembic_graph initial_realm
      alembic_graph attrs_graph] o
  have e: "\<exists>g. parsePinnedRequirementsTree initial_realm ?t = Inr (g, initial_realm)"
    by blast
  from o have "list_all (\<lambda>k. \<not> inherited initial_realm k)
     (spec_packages None (requirement_lines ?t))"
    by (simp add: list_all_iff)
  with t p a b m e show ?thesis by blast
qed

text \<open>
  C7 as stated fails for the merge. Two nodes, \<open>__proto__\<close> and \<open>x\<close>, with \<open>x\<close> in the
  \<open>vias\<close> of \<open>__proto__\<close> and \<open>__proto__\<close> in the \<open>deps\<close> of \<open>x\<close>, satisfy the invariant, and
  so does the empty graph. In their merge the node of \<open>x\<close> still names \<open>__proto__\<close> in
  its \<open>deps\<close>, but \<open>__proto__\<close> is not a key: the assignment to \<open>merged['__proto__']\<close>
  has replaced the prototype of \<open>merged\<close> instead.
\<close>

theorem bidirectional_parse_merge_counterexample:
  "bidirectional proto_graph \<and> bidirectional [] \<and>
   deps_or_empty (own_props (mergeParsedRequirementsTree initial_realm proto_graph [])) ''x'' =
     [''__proto__''] \<and>
   ''__proto__'' \<notin> set (keys (own_props (mergeParsedRequirementsTree initial_realm proto_graph []))) \<and>
   \<not> bidirectional (own_props (mergeParsedRequirementsTree initial_realm proto_graph []))"
  by code_simp

subsection \<open>The version-diff extractor\<close>

lemma split_acc_not_Nil: "split_acc sep cur s \<noteq> []"
  by (induction sep cur s rule: split_acc.induct) auto

lemma split_acc_includes:
  "sep \<noteq> [] \<Longrightarrow> includes_str s sep \<Longrightarrow> \<exists>x y rest. split_acc sep cur s = x # y # rest"
proof (induction sep cur s rule: split_acc.induct)
  case (1 sep cur)
  then show ?case by simp
next
  case (2 sep cur c cs)
  show ?case
  proof (cases "startsWith (c # cs) sep")
    case True
    obtain y rest where "split_acc sep [] (drop (length sep) (c # cs)) = y # rest"
      using split_acc_not_Nil by (meson list.exhaust)
    with True 2(3) show ?thesis by simp
  next
    case False
    with 2 show ?thesis by simp
  qed
qed

lemma split_includes:
  "sep \<noteq> [] \<Longrightarrow> includes_str s sep \<Longrightarrow> \<exists>x y rest. split s sep = x # y # rest"
  by (simp add: split_def split_acc_includes)

lemma includes_after_marker:
  assumes "includes_str line ''==''" and "startsWith line ''-'' \<or> startsWith line ''+''"
  shows "includes_str (drop 1 line) ''==''"
proof (cases line)
  case Nil
  with assms show ?thesis by simp
next
  case (Cons c cs)
  with assms(2) have "c = CHR ''-'' \<or> c = CHR ''+''"
    by (auto simp: startsWith_def)
  then have "\<not> startsWith (c # cs) ''==''"
    by (auto simp: startsWith_def)
  with assms(1) Cons show ?thesis by simp
qed

lemma falsy_ordinary:
  "\<not> inherited r k \<Longrightarrow> falsy (get_property r obj k) \<longleftrightarrow> map_of obj k = None"
  by (simp add: get_property_ordinary falsy_def truthy_def split: option.splits)

lemma spec_pin_line_Some:
  assumes "spec_pin_line line = Some (removal, name, ver)"
  shows "includes_str line ''==''" and "startsWith line ''-'' \<or> startsWith line ''+''"
    and "removal = startsWith line ''-''"
    and "\<exists>p rest. split (drop 1 line) ''=='' = p # ver # rest \<and> name = toLowerCase p"
  using assms by (auto simp: spec_pin_line_def split: if_splits list.splits)

lemma process_line_skip:
  "spec_pin_line line = None \<Longrightarrow> process_line (result, r) line = Inr (result, r)"
proof -
  assume n: "spec_pin_line line = None"
  show ?thesis
  proof (cases "includes_str line ''=='' \<and> (startsWith line ''-'' \<or> startsWith line ''+'')")
    case True
    then obtain x y rest where "split (drop 1 line) ''=='' = x # y # rest"
      using split_includes [of "''==''" "drop 1 line"] includes_after_marker by auto
    with True n show ?thesis by (simp add: spec_pin_line_def)
  next
    case False
    then show ?thesis by (auto simp: process_line_def Let_def)
  qed
qed

lemma process_line_pin_eq:
  assumes "spec_pin_line line = Some (removal, name, ver)"
  shows "process_line (result, r) line =
     (case assign_change r (ensure_entry r result name) name removal (Str ver) of
        Inl e \<Rightarrow> Inl (e, r)
      | Inr st' \<Rightarrow> Inr st')"
proof -
  from spec_pin_line_Some [OF assms] obtain p rest where
    "includes_str line ''==''" and "startsWith line ''-'' \<or> startsWith line ''+''"
    and "removal = startsWith line ''-''" and "split (drop 1 line) ''=='' = p # ver # rest"
    and "name = toLowerCase p"
    by blast
  then show ?thesis
    by (simp add: process_line_def Let_def)
qed

lemma process_line_pin:
  assumes "spec_pin_line line = Some (removal, name, ver)" and "\<not> inherited r name"
  shows "\<exists>result'. process_line (result, r) line = Inr (result', r) \<and>
           set result' \<subseteq> set result \<union>
             {(name, if removal then (entry_or_new result name)\<lparr>before_ver := Str ver\<rparr>
                     else (entry_or_new result name)\<lparr>after_ver := Str ver\<rparr>)} \<and>
           map_of result' =
             (map_of result)(name \<mapsto>
                if removal then (entry_or_new result name)\<lparr>before_ver := Str ver\<rparr>
                else (entry_or_new result name)\<lparr>after_ver := Str ver\<rparr>)"
proof -
  let ?e = "if removal then (entry_or_new result name)\<lparr>before_ver := Str ver\<rparr>
            else (entry_or_new result name)\<lparr>after_ver := Str ver\<rparr>"
  have res: "process_line (result, r) line = Inr (set_prop result name ?e, r)"
  proof (cases "map_of result name")
    case None
    with assms(2) show ?thesis
      by (simp add: process_line_pin_eq [OF assms(1)] ensure_entry_def assign_change_def
          falsy_ordinary get_property_Own map_of_set_prop set_prop_twice entry_or_new_def)
  next
    case (Some e)
    with assms(2) show ?thesis
      by (simp add: process_line_pin_eq [OF assms(1)] ensure_entry_def assign_change_def
          falsy_def get_property_Own entry_or_new_def)
  qed
  show ?thesis
    using set_set_prop [of result name ?e] by (simp add: res map_of_set_prop)
qed

lemma process_line_pin_Inr:
  assumes "spec_pin_line line = Some (removal, name, ver)"
    and "process_line (result, r) line = Inr (result', r')"
  shows "result' = result \<or> (\<exists>e. result' = set_prop result name e \<and> has_version e)"
proof (cases "falsy (get_property r result name)")
  case True
  let ?new = "\<lparr>before_ver = Null, after_ver = Null\<rparr>"
  from True have e: "ensure_entry r result name = set_prop result name ?new"
    by (simp add: ensure_entry_def)
  have "get_property r (set_prop result name ?new) name = Own ?new"
    by (simp add: get_property_Own map_of_set_prop)
  with assms e have "result' = set_prop result name
      (if removal then ?new\<lparr>before_ver := Str ver\<rparr> else ?new\<lparr>after_ver := Str ver\<rparr>)"
    by (simp add: process_line_pin_eq [OF assms(1)] assign_change_def set_prop_twice)
  moreover have "has_version
      (if removal then ?new\<lparr>before_ver := Str ver\<rparr> else ?new\<lparr>after_ver := Str ver\<rparr>)"
    by (simp add: has_version_def is_string_def)
  ultimately show ?thesis by blast
next
  case False
  then have e: "ensure_entry r result name = result"
    by (simp add: ensure_entry_def)
  show ?thesis
  proof (cases "get_property r result name")
    case (Own entry)
    with assms e have "result' = set_prop result name
        (if removal then entry\<lparr>before_ver := Str ver\<rparr> else entry\<lparr>after_ver := Str ver\<rparr>)"
      by (simp add: process_line_pin_eq [OF assms(1)] assign_change_def)
    moreover have "has_version
        (if removal then entry\<lparr>before_ver := Str ver\<rparr> else entry\<lparr>after_ver := Str ver\<rparr>)"
      by (simp add: has_version_def is_string_def)
    ultimately show ?thesis by blast
  next
    case (Builtin b)
    with assms e show ?thesis
      by (simp add: process_line_pin_eq [OF assms(1)] assign_change_def)
  next
    case (Primitive v)
    with assms e show ?thesis
      by (simp add: process_line_pin_eq [OF assms(1)] assign_change_def)
  qed
qed

lemma process_line_keeps:
  assumes "process_line (result, r) line = Inr (result', r')"
    and "\<forall>(lib, c) \<in> set result. has_version c"
  shows "\<forall>(lib, c) \<in> set result'. has_version c"
proof (cases "spec_pin_line line")
  case None
  with assms show ?thesis by (simp add: process_line_skip)
next
  case (Some t)
  then obtain removal name ver where t: "spec_pin_line line = Some (removal, name, ver)"
    by (cases t) auto
  from process_line_pin_Inr [OF t assms(1)] show ?thesis
  proof
    assume "result' = result"
    with assms(2) show ?thesis by simp
  next
    assume "\<exists>e. result' = set_prop result name e \<and> has_version e"
    then obtain e where "result' = set_prop result name e" and "has_version e" by blast
    with assms(2) set_set_prop [of result name e] show ?thesis by auto
  qed
qed

lemma process_lines_keeps:
  "process_lines (result, r) ls = Inr (result', r') \<Longrightarrow>
     \<forall>(lib, c) \<in> set result. has_version c \<Longrightarrow> \<forall>(lib, c) \<in> set result'. has_version c"
proof (induction ls arbitrary: result r)
  case Nil
  then show ?case by simp
next
  case (Cons l ls)
  from Cons.prems(1) obtain result1 r1 where 1: "process_line (result, r) l = Inr (result1, r1)"
    and 2: "process_lines (result1, r1) ls = Inr (result', r')"
    by (auto split: sum.splits)
  from process_line_keeps [OF 1 Cons.prems(2)] Cons.IH [OF 2] show ?case by simp
qed

lemma process_has_version:
  assumes "processPythonReqsDiffOutput r diffText = Inr (result, r')"
  shows "\<forall>(lib, c) \<in> set result. has_version c"
  using process_lines_keeps [of "[]" r "split diffText ''\<newline>''" result r'] assms
  by (simp add: processPythonReqsDiffOutput_def)

lemma process_lines_append:
  "process_lines st (xs @ ys) =
     (case process_lines st xs of Inl e \<Rightarrow> Inl e | Inr st' \<Rightarrow> process_lines st' ys)"
  by (induction xs arbitrary: st) (auto split: sum.splits)

lemma spec_pins_snoc:
  "spec_pins (ls @ [l]) pkg =
     spec_pins ls pkg @
       (case spec_pin_line l of
          None \<Rightarrow> []
        | Some (removal, name, ver) \<Rightarrow> if name = pkg then [(removal, ver)] else [])"
  by (auto simp: spec_pins_def List.map_filter_def split: option.splits)

lemma pin_names_snoc:
  "set (pin_names (ls @ [l])) =
     set (pin_names ls) \<union>
       (case spec_pin_line l of None \<Rightarrow> {} | Some (removal, name, ver) \<Rightarrow> {name})"
  by (auto simp: pin_names_def List.map_filter_def split: option.splits)

lemma spec_changes_entry:
  "entry_or_new result pkg =
     \<lparr>before_ver = last_version (map snd (filter fst pins)),
      after_ver = last_version (map snd (filter (\<lambda>p. \<not> fst p) pins))\<rparr>"
  if "map_of result pkg = (if pins = [] then None
        else Some \<lparr>before_ver = last_version (map snd (filter fst pins)),
                   after_ver = last_version (map snd (filter (\<lambda>p. \<not> fst p) pins))\<rparr>)"
  using that by (auto simp: entry_or_new_def last_version_def)

lemma process_lines_spec:
  "\<forall>k \<in> set (pin_names ls). \<not> inherited r k \<Longrightarrow>
   \<exists>result. process_lines ([], r) ls = Inr (result, r) \<and>
     (\<forall>pkg. map_of result pkg = spec_changes ls pkg)"
proof (induction ls rule: rev_induct)
  case Nil
  then show ?case
    by (simp add: spec_changes_def spec_pins_def List.map_filter_def)
next
  case (snoc l ls)
  from snoc.prems have "\<forall>k \<in> set (pin_names ls). \<not> inherited r k"
    by (simp add: pin_names_snoc)
  with snoc.IH obtain result where r: "process_lines ([], r) ls = Inr (result, r)"
    and m: "\<And>pkg. map_of result pkg = spec_changes ls pkg"
    by blast
  show ?case
  proof (cases "spec_pin_line l")
    case None
    with r m show ?thesis
      by (simp add: process_lines_append process_line_skip spec_changes_def spec_pins_snoc Let_def)
  next
    case (Some t)
    then obtain removal name ver where t: "spec_pin_line l = Some (removal, name, ver)"
      by (cases t) auto
    with snoc.prems have o: "\<not> inherited r name"
      by (simp add: pin_names_snoc)
    let ?e = "if removal then (entry_or_new result name)\<lparr>before_ver := Str ver\<rparr>
              else (entry_or_new result name)\<lparr>after_ver := Str ver\<rparr>"
    from process_line_pin [OF t o, of result] obtain result' where
      p: "process_line (result, r) l = Inr (result', r)"
      and m': "map_of result' = (map_of result)(name \<mapsto> ?e)"
      by blast
    have e: "entry_or_new result name =
        \<lparr>before_ver = last_version (map snd (filter fst (spec_pins ls name))),
         after_ver = last_version (map snd (filter (\<lambda>p. \<not> fst p) (spec_pins ls name)))\<rparr>"
      by (rule spec_changes_entry) (simp add: m spec_changes_def Let_def)
    have "map_of result' pkg = spec_changes (ls @ [l]) pkg" for pkg
      by (simp add: m' m e t spec_changes_def spec_pins_snoc last_version_def Let_def)
    then show ?thesis
      using r p by (simp add: process_lines_append)
  qed
qed

lemma process_spec:
  assumes "\<forall>k \<in> set (diff_packages diffText). \<not> inherited r k"
  shows "\<exists>result. processPythonReqsDiffOutput r diffText = Inr (result, r) \<and>
           (\<forall>pkg. map_of result pkg = spec_extractChanges diffText pkg)"
  using process_lines_spec [of "split diffText ''\<newline>''" r] assms
  by (simp add: processPythonReqsDiffOutput_def spec_extractChanges_def diff_packages_def)





text \<open>
  C10: in every mapping that the extractor returns, on any diff text and in any realm,
  every entry has a string in its \<open>before\<close> or in its \<open>after\<close> field: no entry has both
  fields \<open>null\<close>. The extractor does return a mapping when no line that counts names a
  package under a name that objects inherit from \<open>Object.prototype\<close>.
\<close>

theorem processPythonReqsDiffOutput_has_version:
  "(processPythonReqsDiffOutput r diffText = Inr (result, r') \<longrightarrow>
      (\<forall>(lib, c) \<in> set result.
         has_version c \<and> \<not> (before_ver c = Null \<and> after_ver c = Null))) \<and>
   ((\<forall>k \<in> set (diff_packages diffText). \<not> inherited r k) \<longrightarrow>
      (\<exists>result. processPythonReqsDiffOutput r diffText = Inr (result, r)))"
proof -
  have n: "has_version c \<Longrightarrow> \<not> (before_ver c = Null \<and> after_ver c = Null)" for c
    by (auto simp: has_version_def is_string_def)
  have 1: "processPythonReqsDiffOutput r diffText = Inr (result, r') \<longrightarrow>
      (\<forall>(lib, c) \<in> set result.
         has_version c \<and> \<not> (before_ver c = Null \<and> after_ver c = Null))"
    using process_has_version [of r diffText result r'] n by fastforce
  have 2: "(\<forall>k \<in> set (diff_packages diffText). \<not> inherited r k) \<longrightarrow>
      (\<exists>result. processPythonReqsDiffOutput r diffText = Inr (result, r))"
    using process_spec [of diffText r] by blast
  from 1 2 show ?thesis by blast
qed

theorem processPythonReqsDiffOutput_has_version_witness:
  "processPythonReqsDiffOutput initial_realm ''+paramiko==3.1.1\<newline> # via x'' =
     Inr ([(''paramiko'', \<lparr>before_ver = Null, after_ver = Str ''3.1.1''\<rparr>)], initial_realm) \<and>
   list_all (\<lambda>k. \<not> inherited initial_realm k)
     (diff_packages ''+paramiko==3.1.1\<newline> # via x'') \<and>
   (\<exists>result. processPythonReqsDiffOutput initial_realm ''+paramiko==3.1.1\<newline> # via x'' =
      Inr (result, initial_realm)) \<and>
   has_version \<lparr>before_ver = Null, after_ver = Str ''3.1.1''\<rparr>"
proof -
  let ?t = "''+paramiko==3.1.1\<newline> # via x''"
  have e: "processPythonReqsDiffOutput initial_realm ?t =
     Inr ([(''paramiko'', \<lparr>before_ver = Null, after_ver = Str ''3.1.1''\<rparr>)], initial_realm)"
    by code_simp
  have d: "diff_packages ?t = [''paramiko'']"
    by code_simp
  have o: "\<forall>k \<in> set (diff_packages ?t). \<not> inherited initial_realm k"
    by (simp add: d inherited_def builtin_names_def pollution_def)
  from processPythonReqsDiffOutput_has_version
    [of initial_realm ?t "[(''paramiko'', \<lparr>before_ver = Null, after_ver = Str ''3.1.1''\<rparr>)]"
        initial_realm] e
  have "\<forall>(lib, c) \<in> set [(''paramiko'', \<lparr>before_ver = Null, after_ver = Str ''3.1.1''\<rparr>)].
      has_version c \<and> \<not> (before_ver c = Null \<and> after_ver c = Null)"
    by blast
  then have h: "has_version \<lparr>before_ver = Null, after_ver = Str ''3.1.1''\<rparr>"
    by simp
  from o have l: "list_all (\<lambda>k. \<not> inherited initial_realm k) (diff_packages ?t)"
    by (simp add: list_all_iff)
  from e h l show ?thesis by simp
qed

subsection \<open>The version comparator\<close>

lemma js_less_NaN [simp]: "\<not> js_less x NaN" "\<not> js_less NaN x"
  by (cases x; simp)+



lemma compare_from_ge3: "3 \<le> i \<Longrightarrow> compare_from i A B = 0"
  by (subst compare_from.simps) simp

lemma element_all_NaN:
  "\<forall>x \<in> set A. x = NaN \<Longrightarrow> ToNumber (element_at A i) = NaN"
  by (simp add: element_at_def ToNumber_def)

lemma compare_all_NaN:
  assumes "\<forall>x \<in> set A. x = NaN"
  shows "compare_from i A B = 0"
  using assms
proof (induction i A B rule: compare_from.induct)
  case (1 i A B)
  show ?case
  proof (cases "i < 3")
    case True
    have "ToNumber (element_at A i) = NaN"
      using "1.prems" by (rule element_all_NaN)
    with 1 True show ?thesis
      by (subst compare_from.simps) (simp add: js_gt_def js_lt_def)
  next
    case False
    then show ?thesis by (simp add: compare_from_ge3)
  qed
qed


lemma round_half_even_of_int: "round_half_even (of_int z) = z"
  by (simp add: round_half_even_def)

lemma bitlen_le_54:
  assumes "0 < n" and "n \<le> 2 ^ 53"
  shows "bitlen (n :: int) \<le> 54"
proof (rule ccontr)
  assume "\<not> bitlen n \<le> 54"
  then have "54 \<le> nat (bitlen n - 1)" by simp
  then have "(2 :: int) ^ 54 \<le> 2 ^ nat (bitlen n - 1)"
    by (rule power_increasing) simp
  also have "\<dots> \<le> n" using bitlen_bounds [OF assms(1)] by simp
  finally show False using assms(2) by simp
qed

lemma bitlen_pos: "0 < (n :: int) \<Longrightarrow> 0 < bitlen n"
  using bitlen_eq_zero_iff [of n] bitlen_nonneg [of n] by linarith

lemma floor_log2_of_int:
  assumes "0 < (n :: int)"
  shows "floor_log2 (of_int n) = bitlen n - 1"
proof -
  have b: "0 < bitlen n" using assms by (rule bitlen_pos)
  have "(2 :: int) ^ nat (bitlen n - 1) \<le> n"
    using bitlen_bounds [OF assms] by simp
  then have "(of_int ((2 :: int) ^ nat (bitlen n - 1)) :: rat) \<le> of_int n"
    by (simp only: of_int_le_iff)
  then have "pow2 (bitlen n - 1) \<le> of_int n"
    using b by (simp add: pow2_def)
  moreover have "bitlen 1 = 1"
    by (subst compute_bitlen) simp
  ultimately show ?thesis
    by (simp add: floor_log2_def)
qed

lemma to_double_exact:
  assumes "0 \<le> (n :: int)" and "n \<le> 2 ^ 53"
  shows "to_double (of_int n) = Finite (of_int n)"
proof (cases "n = 0")
  case True
  then show ?thesis by (simp add: to_double_def)
next
  case False
  with assms have pos: "0 < n" by simp
  define e where "e = bitlen n - 1"
  have e0: "0 \<le> e" using bitlen_pos [OF pos] by (simp add: e_def)
  have e53: "e \<le> 53" using bitlen_le_54 [OF pos assms(2)] by (simp add: e_def)
  have fl: "floor_log2 \<bar>of_int n\<bar> = e"
    using pos floor_log2_of_int [OF pos] by (simp add: e_def)
  show ?thesis
  proof (cases "e = 53")
    case True
    then have "(2 :: int) ^ 53 \<le> n"
      using bitlen_bounds [OF pos] by (simp add: e_def)
    with assms have n: "n = 2 ^ 53" by simp
    have "round_half_even (of_int n / pow2 1) = 2 ^ 52"
      using round_half_even_of_int [of "2 ^ 52"] by (simp add: n pow2_def)
    with True fl pos show ?thesis
      by (simp add: to_double_def Let_def n pow2_def)
  next
    case False
    with e53 have u: "e - 52 \<le> 0" by simp
    define k where "k = nat (52 - e)"
    have p: "pow2 (e - 52) = 1 / 2 ^ k"
    proof (cases "e = 52")
      case True
      then show ?thesis by (simp add: pow2_def k_def)
    next
      case False
      with u have "e - 52 < 0" by simp
      then show ?thesis by (simp add: pow2_def k_def)
    qed
    have "of_int n / pow2 (e - 52) = (of_int (n * 2 ^ k) :: rat)"
      by (simp add: p)
    then have m: "round_half_even (of_int n / pow2 (e - 52)) = n * 2 ^ k"
      using round_half_even_of_int by metis
    have big: "\<not> (1023 < e \<or> e = 1023 \<and> n * 2 ^ k = 2 ^ 53)"
      using e53 by simp
    show ?thesis
      using pos e0 fl m p big by (simp add: to_double_def Let_def)
  qed
qed


lemma is_digit_not_space: "is_digit ch \<Longrightarrow> \<not> is_space ch"
  by (auto simp: is_digit_def is_space_def)

lemma trim_id: "\<forall>ch \<in> set c. \<not> is_space ch \<Longrightarrow> trim c = c"
proof -
  assume a: "\<forall>ch \<in> set c. \<not> is_space ch"
  have d: "dropWhile is_space xs = xs" if "\<forall>ch \<in> set xs. \<not> is_space ch" for xs
    using that by (cases xs) auto
  have "dropWhile is_space (rev c) = rev c"
    using a by (intro d) simp
  with d [OF a] show ?thesis by (simp add: trim_def)
qed

lemma radix_value_decimal:
  "\<forall>ch \<in> set c. is_digit ch \<Longrightarrow>
     radix_value 10 acc c = Some (foldl (\<lambda>acc ch. acc * 10 + (int (of_char ch) - 48)) acc c)"
  by (induction c arbitrary: acc) (auto simp: is_digit_def digit_value_def Let_def)

lemma foldl_decimal_nonneg:
  "\<forall>ch \<in> set c. is_digit ch \<Longrightarrow> 0 \<le> acc \<Longrightarrow>
     0 \<le> foldl (\<lambda>acc ch. acc * 10 + (int (of_char ch) - 48)) acc c"
  by (induction c arbitrary: acc) (auto simp: is_digit_def)

lemma decimal_value_nonneg: "decimal c \<Longrightarrow> 0 \<le> decimal_value c"
  by (simp add: decimal_def decimal_value_def foldl_decimal_nonneg)

lemma unsigned_decimal_digits:
  assumes "decimal c"
  shows "unsigned_decimal c = to_double (of_int (decimal_value c))"
proof -
  from assms obtain d ds where c: "c = d # ds" and d: "is_digit d"
    by (cases c) (auto simp: decimal_def)
  from d have "d \<noteq> CHR ''I''" by (auto simp: is_digit_def)
  with c have inf: "c \<noteq> ''Infinity''" by auto
  from assms have all: "\<forall>ch \<in> set c. is_digit ch" by (simp add: decimal_def)
  then have t: "takeWhile is_digit c = c" and r: "dropWhile is_digit c = []"
    by simp_all
  from assms have ne: "c \<noteq> []" by (simp add: decimal_def)
  show ?thesis
    using inf ne
    by (simp add: unsigned_decimal_def t r startsWith_def radix_value_decimal [OF all]
        exponent_part_def pow10_def decimal_value_def)
qed

lemma Number_decimal:
  assumes "decimal c" and "decimal_value c \<le> 2 ^ 53"
  shows "Number c = Finite (of_int (decimal_value c))"
proof -
  from assms(1) have all: "\<forall>ch \<in> set c. is_digit ch" and ne: "c \<noteq> []"
    by (simp_all add: decimal_def)
  then have t: "trim c = c"
    by (intro trim_id) (auto dest: is_digit_not_space)
  have x: "\<not> is_digit (CHR ''x'')" "\<not> is_digit (CHR ''X'')" "\<not> is_digit (CHR ''o'')"
    "\<not> is_digit (CHR ''O'')" "\<not> is_digit (CHR ''b'')" "\<not> is_digit (CHR ''B'')"
    "\<not> is_digit (CHR ''+'')" "\<not> is_digit (CHR ''-'')"
    by (simp_all add: is_digit_def)
  have p: "\<not> startsWith c [a, b]" if "\<not> is_digit b" for a b
    using all that by (cases c; cases "tl c") (auto simp: startsWith_def)
  have q: "\<not> startsWith c [a]" if "\<not> is_digit a" for a
    using all that by (cases c) (auto simp: startsWith_def)
  have "Number c = unsigned_decimal c"
    using ne by (simp add: Number_def t p x q)
  then show ?thesis
    using assms by (simp add: unsigned_decimal_digits to_double_exact decimal_value_nonneg)
qed

lemma compare_from_finite:
  "compare_from 0 (Finite (of_int x1) # Finite (of_int x2) # Finite (of_int x3) # ra)
       (Finite (of_int y1) # Finite (of_int y2) # Finite (of_int y3) # rb) =
     spec_compare [x1, x2, x3] [y1, y2, y3]"
proof -
  have 3: "compare_from 3 A B = 0" for A B
    by (simp add: compare_from_ge3)
  have e: "Suc (Suc 0) = 2" "Suc 2 = 3" by simp_all
  show ?thesis
    by (simp add: compare_from.simps [of 0] compare_from.simps [of "Suc 0"]
        compare_from.simps [of 2] 3 e element_at_def ToNumber_def js_gt_def js_lt_def)
qed

text \<open>
  C5 (as amended): when the first three components of both versions are decimal digit
  strings that denote integers of at most \<open>2 ^ 53\<close>, the comparison is the integer
  comparison of the components in order (leading zeros do not count, and 10 is above
  2); \<open>compare("1.01.1", "1.1.2") = -1\<close>, \<open>compare("01.1.1", "1.1.1") = 0\<close> and
  \<open>compare("1.2.10", "1.2.2") = 1\<close>.
\<close>

theorem compareSemVer_decimal:
  "(split a ''.'' = a1 # a2 # a3 # ra \<and> split b ''.'' = b1 # b2 # b3 # rb \<and>
    (\<forall>c \<in> set [a1, a2, a3, b1, b2, b3]. decimal c \<and> decimal_value c \<le> 2 ^ 53) \<longrightarrow>
    compareSemVer a b =
      spec_compare [decimal_value a1, decimal_value a2, decimal_value a3]
        [decimal_value b1, decimal_value b2, decimal_value b3]) \<and>
   compareSemVer ''1.01.1'' ''1.1.2'' = - 1 \<and>
   compareSemVer ''01.1.1'' ''1.1.1'' = 0 \<and>
   compareSemVer ''1.2.10'' ''1.2.2'' = 1"
proof -
  have "compareSemVer ''1.01.1'' ''1.1.2'' = - 1"
    and "compareSemVer ''01.1.1'' ''1.1.1'' = 0"
    and "compareSemVer ''1.2.10'' ''1.2.2'' = 1"
    by code_simp+
  then show ?thesis
    by (simp add: compareSemVer_def Number_decimal compare_from_finite)
qed

theorem compareSemVer_decimal_witness:
  "split ''1.10.0'' ''.'' = [''1'', ''10'', ''0''] \<and>
   split ''1.9.3'' ''.'' = [''1'', ''9'', ''3''] \<and>
   map decimal [''1'', ''10'', ''0'', ''1'', ''9'', ''3''] = [True, True, True, True, True, True] \<and>
   map decimal_value [''1'', ''10'', ''0'', ''1'', ''9'', ''3''] = [1, 10, 0, 1, 9, 3] \<and>
   compareSemVer ''1.10.0'' ''1.9.3'' = spec_compare [1, 10, 0] [1, 9, 3] \<and>
   spec_compare [1, 10, 0] [1, 9, 3] = 1"
proof -
  have s: "split ''1.10.0'' ''.'' = [''1'', ''10'', ''0'']"
    "split ''1.9.3'' ''.'' = [''1'', ''9'', ''3'']"
    by code_simp+
  have d: "map decimal [''1'', ''10'', ''0'', ''1'', ''9'', ''3''] =
      [True, True, True, True, True, True]"
    by code_simp
  have v: "map decimal_value [''1'', ''10'', ''0'', ''1'', ''9'', ''3''] = [1, 10, 0, 1, 9, 3]"
    by code_simp
  from d v have h: "\<forall>c \<in> set [''1'', ''10'', ''0'', ''1'', ''9'', ''3''].
      decimal c \<and> decimal_value c \<le> 2 ^ 53"
    by simp
  from compareSemVer_decimal [of "''1.10.0''" "''1''" "''10''" "''0''" "[]"
      "''1.9.3''" "''1''" "''9''" "''3''" "[]"] s h
  have "compareSemVer ''1.10.0'' ''1.9.3'' =
      spec_compare [decimal_value ''1'', decimal_value ''10'', decimal_value ''0'']
        [decimal_value ''1'', decimal_value ''9'', decimal_value ''3'']"
    by blast
  with s d v show ?thesis by simp
qed

text \<open>
  C5 as stated fails: the components 9007199254740993 and 9007199254740992 are numeric
  and differ as integers, but both convert to the same double, so the comparison of
  the two versions is 0.
\<close>

theorem compareSemVer_decimal_counterexample:
  "split ''9007199254740993.0.0'' ''.'' = [''9007199254740993'', ''0'', ''0''] \<and>
   split ''9007199254740992.0.0'' ''.'' = [''9007199254740992'', ''0'', ''0''] \<and>
   map decimal [''9007199254740993'', ''9007199254740992'', ''0''] = [True, True, True] \<and>
   map decimal_value [''9007199254740993'', ''9007199254740992'', ''0''] =
     [9007199254740993, 9007199254740992, 0] \<and>
   spec_compare [9007199254740993, 0, 0] [9007199254740992, 0, 0] = 1 \<and>
   compareSemVer ''9007199254740993.0.0'' ''9007199254740992.0.0'' = 0"
  by code_simp







text \<open>
  C9: when no dot-separated component of either version converts to a number (each is
  NaN), the comparison is 0.
\<close>

theorem compareSemVer_all_NaN:
  "(\<forall>c \<in> set (split a ''.''). Number c = NaN) \<Longrightarrow>
   (\<forall>c \<in> set (split b ''.''). Number c = NaN) \<Longrightarrow> compareSemVer a b = 0"
  by (simp add: compareSemVer_def compare_all_NaN)

theorem compareSemVer_all_NaN_witness:
  "split ''foo'' ''.'' = [''foo''] \<and> split ''bar'' ''.'' = [''bar''] \<and>
   Number ''foo'' = NaN \<and> Number ''bar'' = NaN \<and> compareSemVer ''foo'' ''bar'' = 0"
proof -
  have s: "split ''foo'' ''.'' = [''foo'']" "split ''bar'' ''.'' = [''bar'']"
    and n: "Number ''foo'' = NaN" "Number ''bar'' = NaN"
    by code_simp+
  from compareSemVer_all_NaN [of "''foo''" "''bar''"] s n
  show ?thesis by simp
qed

end
